theory Spec2Isabelle
  imports Complex_Main "HOL-Library.Sublist" "HOL-Library.Multiset"
begin

section \<open>The search aggregator of \<^verbatim>\<open>lib/search-aggregator.js\<close>\<close>

text \<open>
  The theory embeds the class \<^verbatim>\<open>SearchAggregator\<close>: the fusion functions
  \<^verbatim>\<open>deduplicateResults\<close> and \<^verbatim>\<open>scoreResults\<close>, which are pure apart from writing
  into the finding they return, and the life cycle of a scan (\<^verbatim>\<open>startScan\<close>,
  \<^verbatim>\<open>runScan\<close>), which is asynchronous. JavaScript runs every piece of code between two
  \<^verbatim>\<open>await\<close>s without interruption, so the asynchronous part is a transition system whose
  steps are those pieces.

  Numbers: a confidence is a JavaScript double; it is modelled as a \<^typ>\<open>real\<close>. The
  scoring rule is given twice: in exact arithmetic, which the order of the results and the
  life cycle of a scan are stated with, and in double-precision arithmetic, where every
  operation is rounded as the engine rounds it and which the scoring rule itself is
  stated with. Times are the integer milliseconds of \<^verbatim>\<open>Date.now()\<close>.

  An adapter is known by its name and priority; what its \<^verbatim>\<open>search\<close> does, its rate
  limit included, shows only in how its call settles. The events the aggregator emits
  change no state and are left out.
\<close>

subsection \<open>Findings\<close>

text \<open>
  A finding is the object an adapter builds with \<^verbatim>\<open>normalizeResult\<close> and its own
  properties. The record has the properties the aggregator reads or writes. A string
  property that is \<^verbatim>\<open>null\<close>, \<^verbatim>\<open>undefined\<close> or missing is \<^term>\<open>None\<close>;
  \<^verbatim>\<open>confidenceLevel\<close> is missing until \<^verbatim>\<open>scoreResults\<close> writes it.
\<close>

datatype level = High | Medium | Low

record finding =
  finding_id :: string
  source :: string
  confidence :: real
  verified :: bool
  url :: "string option"
  username :: "string option"
  email :: "string option"
  displayName :: "string option"
  bio :: "string option"
  location :: "string option"
  avatar :: "string option"
  confidenceLevel :: "level option"

text \<open>The names of the string properties, for \<^verbatim>\<open>result[field]\<close>.\<close>

datatype field = Url | Username | Email | DisplayName | Bio | Location | Avatar

fun get_field :: "field \<Rightarrow> finding \<Rightarrow> string option" where
  "get_field Url r = url r"
| "get_field Username r = username r"
| "get_field Email r = email r"
| "get_field DisplayName r = displayName r"
| "get_field Bio r = bio r"
| "get_field Location r = location r"
| "get_field Avatar r = avatar r"

text \<open>JavaScript truthiness of a string property: present and not the empty string.\<close>

fun truthy :: "string option \<Rightarrow> bool" where
  "truthy None = False"
| "truthy (Some s) = (s \<noteq> [])"

text \<open>\<^verbatim>\<open>.filter(Boolean)\<close> on a list of string properties.\<close>

fun filter_Boolean :: "string option list \<Rightarrow> string list" where
  "filter_Boolean [] = []"
| "filter_Boolean (None # vs) = filter_Boolean vs"
| "filter_Boolean (Some s # vs) = (if s = [] then filter_Boolean vs else s # filter_Boolean vs)"

text \<open>\<^verbatim>\<open>Array.prototype.join\<close>.\<close>

fun join :: "string \<Rightarrow> string list \<Rightarrow> string" where
  "join sep [] = []"
| "join sep [s] = s"
| "join sep (s # t # ss) = s @ sep @ join sep (t # ss)"

text \<open>
  \<^verbatim>\<open>String.prototype.toLowerCase\<close>, on the ASCII letters (a \<^typ>\<open>char\<close> is a byte).
\<close>

definition lower_char :: "char \<Rightarrow> char" where
  "lower_char c =
     (if (65::nat) \<le> of_char c \<and> of_char c \<le> (90::nat) then char_of (of_char c + (32::nat)) else c)"

definition toLowerCase :: "string \<Rightarrow> string" where
  "toLowerCase s = map lower_char s"

subsection \<open>Configuration\<close>

text \<open>
  \<^verbatim>\<open>AGGREGATOR_CONFIG\<close>, with the entries the aggregator reads. The constructor merges
  the caller's options over it, so every entry can differ from its default.
\<close>

record aggregator_config =
  defaultTimeout :: int
  totalTimeout :: int
  cacheTTL :: int
  enableCache :: bool
  dedupeFields :: "field list"

definition AGGREGATOR_CONFIG :: aggregator_config where
  "AGGREGATOR_CONFIG =
     \<lparr>defaultTimeout = 30000, totalTimeout = 120000, cacheTTL = 3600, enableCache = True,
      dedupeFields = [Url, Username, Email]\<rparr>"

subsection \<open>Result fusion\<close>

text \<open>
  The key of \<^verbatim>\<open>deduplicateResults\<close>:
  \<^verbatim>\<open>this.config.dedupeFields.map(field => result[field]).filter(Boolean).join('|')\<close>.
\<close>

definition dedupe_keys :: "field list \<Rightarrow> finding \<Rightarrow> string" where
  "dedupe_keys dfields result = join ''|'' (filter_Boolean (map (\<lambda>f. get_field f result) dfields))"

text \<open>
  The callback of \<^verbatim>\<open>results.filter\<close>, run over the list from left to right with the
  map \<^verbatim>\<open>seen\<close> threaded through. A finding whose key is the empty string is kept and
  \<^verbatim>\<open>seen\<close> is left alone.
\<close>

fun dedupe_filter :: "field list \<Rightarrow> (string \<rightharpoonup> finding) \<Rightarrow> finding list \<Rightarrow> finding list" where
  "dedupe_filter dfields seen [] = []"
| "dedupe_filter dfields seen (result # rest) =
     (let keys = dedupe_keys dfields result in
      if keys = [] then result # dedupe_filter dfields seen rest
      else case seen keys of
        Some existing \<Rightarrow>
          if confidence result > confidence existing
          then result # dedupe_filter dfields (seen(keys \<mapsto> result)) rest
          else dedupe_filter dfields seen rest
      | None \<Rightarrow> result # dedupe_filter dfields (seen(keys \<mapsto> result)) rest)"

definition deduplicateResults :: "aggregator_config \<Rightarrow> finding list \<Rightarrow> finding list" where
  "deduplicateResults cfg results = dedupe_filter (dedupeFields cfg) Map.empty results"

text \<open>The map \<^verbatim>\<open>seen\<close> after the callback has run over a list.\<close>

fun seen_after :: "field list \<Rightarrow> (string \<rightharpoonup> finding) \<Rightarrow> finding list \<Rightarrow> (string \<rightharpoonup> finding)" where
  "seen_after dfields seen [] = seen"
| "seen_after dfields seen (result # rest) =
     (let keys = dedupe_keys dfields result in
      if keys = [] then seen_after dfields seen rest
      else case seen keys of
        Some existing \<Rightarrow>
          if confidence result > confidence existing
          then seen_after dfields (seen(keys \<mapsto> result)) rest
          else seen_after dfields seen rest
      | None \<Rightarrow> seen_after dfields (seen(keys \<mapsto> result)) rest)"

text \<open>
  The callback of \<^verbatim>\<open>results.map\<close> in \<^verbatim>\<open>scoreResults\<close>. \<^verbatim>\<open>result.confidence || 0.5\<close>
  takes 0.5 when the confidence is 0. \<^verbatim>\<open>result.username?.toLowerCase()\<close> is
  \<^verbatim>\<open>undefined\<close> for a missing username, which equals no string.
\<close>

definition dataFields :: "field list" where
  "dataFields = [DisplayName, Bio, Email, Location, Avatar]"

definition score_result :: "string \<Rightarrow> finding \<Rightarrow> finding" where
  "score_result query result =
     (let score0 = (if confidence result = 0 then 0.5 else confidence result);
          score1 = (if verified result then score0 + 0.2 else score0);
          score2 = (if map_option toLowerCase (username result) = Some (toLowerCase query)
                    then score1 + 0.3 else score1);
          filledFields = length (filter (\<lambda>f. truthy (get_field f result)) dataFields);
          score3 = score2 + (real filledFields / real (length dataFields)) * 0.1;
          c = min 1 (max 0 score3)
      in result\<lparr>confidence := c,
                confidenceLevel :=
                  Some (if c \<ge> 0.8 then High else if c \<ge> 0.5 then Medium else Low)\<rparr>)"

definition scoreResults :: "finding list \<Rightarrow> string \<Rightarrow> finding list" where
  "scoreResults results query = map (score_result query) results"

text \<open>
  A JavaScript number is an IEEE 754 binary64 value, and every arithmetic operation and
  every decimal literal of the source yields its exact result rounded to the nearest such
  value, a tie going to the even significand. \<^term>\<open>round_double\<close> is that rounding on
  the reals: the exponent of the binade, not below that of the subnormal numbers, fixes the
  spacing, and the quotient by the spacing is rounded to an integer. It covers the finite
  doubles; a result beyond the largest of them and \<^verbatim>\<open>NaN\<close> are outside the model.
\<close>

fun exponent_of :: "nat \<Rightarrow> real \<Rightarrow> int" where
  "exponent_of 0 x = 0"
| "exponent_of (Suc n) x =
     (if 2 \<le> x then exponent_of n (x / 2) + 1
      else if x < 1 then exponent_of n (2 * x) - 1
      else 0)"

definition round_to_even :: "real \<Rightarrow> int" where
  "round_to_even m =
     (let f = \<lfloor>m\<rfloor>; d = m - of_int f
      in if d < 1 / 2 then f else if 1 / 2 < d then f + 1 else if even f then f else f + 1)"

definition round_double :: "real \<Rightarrow> real" where
  "round_double x =
     (if x = 0 then 0
      else (let a = \<bar>x\<bar>;
                e = max (exponent_of 2200 a) (- 1022);
                ulp = (if 52 \<le> e then 2 ^ nat (e - 52) else 1 / 2 ^ nat (52 - e));
                r = of_int (round_to_even (a / ulp)) * ulp
            in if x < 0 then - r else r))"

text \<open>
  The callback of \<^verbatim>\<open>scoreResults\<close> once more, with the arithmetic of the engine made
  explicit: \<^term>\<open>rnd\<close> rounds every literal and the result of every operation, in the
  order in which the source evaluates them, and \<^term>\<open>lower\<close> is
  \<^verbatim>\<open>String.prototype.toLowerCase\<close>. With \<^const>\<open>round_double\<close> for \<^term>\<open>rnd\<close> it
  computes the doubles the program computes. \<^const>\<open>score_result\<close> is its instance with no
  rounding and the lower-casing of the ASCII letters.
\<close>

definition score_result_with ::
  "(string \<Rightarrow> string) \<Rightarrow> (real \<Rightarrow> real) \<Rightarrow> string \<Rightarrow> finding \<Rightarrow> finding" where
  "score_result_with lower rnd query result =
     (let score0 = (if confidence result = 0 then rnd 0.5 else confidence result);
          score1 = (if verified result then rnd (score0 + rnd 0.2) else score0);
          score2 = (if map_option lower (username result) = Some (lower query)
                    then rnd (score1 + rnd 0.3) else score1);
          filledFields = length (filter (\<lambda>f. truthy (get_field f result)) dataFields);
          score3 = rnd (score2
                        + rnd (rnd (real filledFields / real (length dataFields)) * rnd 0.1));
          c = min 1 (max 0 score3)
      in result\<lparr>confidence := c,
                confidenceLevel :=
                  Some (if c \<ge> rnd 0.8 then High else if c \<ge> rnd 0.5 then Medium else Low)\<rparr>)"

definition scoreResults_with ::
  "(string \<Rightarrow> string) \<Rightarrow> (real \<Rightarrow> real) \<Rightarrow> finding list \<Rightarrow> string \<Rightarrow> finding list" where
  "scoreResults_with lower rnd results query = map (score_result_with lower rnd query) results"

text \<open>
  \<^verbatim>\<open>scan.results.sort((a, b) => b.confidence - a.confidence)\<close>. \<^verbatim>\<open>Array.prototype.sort\<close>
  is stable (ECMAScript 2019; the repository asks for Node 18), so it is the stable
  insertion sort of the library on the negated confidence.
\<close>

definition sort_by_confidence :: "finding list \<Rightarrow> finding list" where
  "sort_by_confidence results = sort_key (\<lambda>r. - confidence r) results"

subsection \<open>Scan jobs, adapters and the aggregator\<close>

datatype status = Running | Completed | Error

text \<open>
  The options of a scan. The aggregator reads \<^verbatim>\<open>options.adapters\<close> only; \<^term>\<open>None\<close> is
  a missing list (all adapters), \<^term>\<open>Some []\<close> an empty one (no adapter).
\<close>

record scan_options =
  opt_adapters :: "string list option"

record scan_stats =
  totalSources :: nat
  completedSources :: nat
  totalResults :: nat
  uniqueResults :: nat

text \<open>
  An entry of \<^verbatim>\<open>scan.errors\<close>: the adapter callback pushes
  \<^verbatim>\<open>{ adapter: adapter.name, error: error.message }\<close>, the handler of \<^verbatim>\<open>startScan\<close>
  pushes \<^verbatim>\<open>error.message\<close>.
\<close>

datatype scan_error = AdapterError string string | ScanError string

record scan =
  scan_id :: string
  query :: string
  options :: scan_options
  status :: status
  startTime :: int
  endTime :: "int option"
  progress :: nat
  results :: "finding list"
  errors :: "scan_error list"
  stats :: scan_stats
  fromCache :: bool

record adapter =
  name :: string
  priority :: int

record cache_entry =
  cached_results :: "finding list"
  timestamp :: int

text \<open>
  The control state of one call of \<^verbatim>\<open>runScan\<close>: the adapters whose
  \<^verbatim>\<open>Promise.race([adapter.search(...), this.timeout(...)])\<close> has not settled yet, and
  whether \<^verbatim>\<open>runScan\<close> is still suspended at its own \<^verbatim>\<open>await Promise.race([...])\<close>.
\<close>

record task =
  pending :: "string list"
  awaiting :: bool

text \<open>
  The aggregator: its configuration, the three maps of the constructor (\<^verbatim>\<open>adapters\<close> in
  insertion order), the suspended calls, and a log of the calls of \<^verbatim>\<open>adapter.search\<close>
  as pairs of scan identifier and adapter name.
\<close>

record aggregator =
  config :: aggregator_config
  adapters :: "adapter list"
  scans :: "string \<rightharpoonup> scan"
  cache :: "string \<rightharpoonup> cache_entry"
  tasks :: "string \<rightharpoonup> task"
  calls :: "(string \<times> string) list"

text \<open>\<^verbatim>\<open>this.adapters.set(adapter.name, adapter)\<close>: a known name keeps its place.\<close>

fun set_adapter :: "adapter \<Rightarrow> adapter list \<Rightarrow> adapter list" where
  "set_adapter a [] = [a]"
| "set_adapter a (b # bs) = (if name b = name a then a # bs else b # set_adapter a bs)"

definition registerAdapter :: "adapter \<Rightarrow> aggregator \<Rightarrow> aggregator" where
  "registerAdapter a s = s\<lparr>adapters := set_adapter a (adapters s)\<rparr>"

text \<open>The adapters of \<^verbatim>\<open>registerDefaultAdapters\<close>, with the priority each class passes.\<close>

definition default_adapters :: "adapter list" where
  "default_adapters =
     [\<lparr>name = ''github'', priority = 1\<rparr>, \<lparr>name = ''reddit'', priority = 2\<rparr>,
      \<lparr>name = ''gitlab'', priority = 3\<rparr>, \<lparr>name = ''keybase'', priority = 4\<rparr>,
      \<lparr>name = ''hackernews'', priority = 5\<rparr>, \<lparr>name = ''twitter'', priority = 1\<rparr>,
      \<lparr>name = ''instagram'', priority = 2\<rparr>, \<lparr>name = ''linkedin'', priority = 2\<rparr>,
      \<lparr>name = ''shodan'', priority = 6\<rparr>, \<lparr>name = ''hunter'', priority = 5\<rparr>,
      \<lparr>name = ''direct'', priority = 10\<rparr>, \<lparr>name = ''searchengine'', priority = 8\<rparr>]"

definition registerDefaultAdapters :: "aggregator \<Rightarrow> aggregator" where
  "registerDefaultAdapters s = foldl (\<lambda>s a. registerAdapter a s) s default_adapters"

text \<open>The constructor, given the merged configuration.\<close>

definition new_SearchAggregator :: "aggregator_config \<Rightarrow> aggregator" where
  "new_SearchAggregator cfg =
     registerDefaultAdapters
       \<lparr>config = cfg, adapters = [], scans = Map.empty, cache = Map.empty, tasks = Map.empty,
        calls = []\<rparr>"

text \<open>
  \<^verbatim>\<open>JSON.stringify(options)\<close> for the options of the model. Of the characters of a name,
  the quotation mark and the backslash are escaped with a backslash, and a control
  character (below 0x20) is written with its letter (backspace, tab, line feed, form feed,
  carriage return) or as \<^verbatim>\<open>\u00\<close> and its two lower-case hexadecimal digits.
\<close>

definition hex_digit :: "nat \<Rightarrow> char" where
  "hex_digit n = ''0123456789abcdef'' ! n"

definition json_escape :: "char \<Rightarrow> string" where
  "json_escape c =
     (if c = CHR 0x22 \<or> c = CHR 0x5C then [CHR 0x5C, c]
      else if c = CHR 0x08 then [CHR 0x5C, CHR ''b'']
      else if c = CHR 0x09 then [CHR 0x5C, CHR ''t'']
      else if c = CHR 0x0A then [CHR 0x5C, CHR ''n'']
      else if c = CHR 0x0C then [CHR 0x5C, CHR ''f'']
      else if c = CHR 0x0D then [CHR 0x5C, CHR ''r'']
      else if of_char c < (32::nat)
      then [CHR 0x5C, CHR ''u'', CHR ''0'', CHR ''0'',
            hex_digit (of_char c div 16), hex_digit (of_char c mod 16)]
      else [c])"

definition json_string :: "string \<Rightarrow> string" where
  "json_string s = CHR 0x22 # concat (map json_escape s) @ [CHR 0x22]"

definition JSON_stringify :: "scan_options \<Rightarrow> string" where
  "JSON_stringify opts =
     (case opt_adapters opts of
        None \<Rightarrow> ''{}''
      | Some names \<Rightarrow>
          ''{'' @ json_string ''adapters'' @ '':['' @ join '','' (map json_string names) @ '']}'')"

definition getCacheKey :: "string \<Rightarrow> scan_options \<Rightarrow> string" where
  "getCacheKey q opts = q @ '':'' @ JSON_stringify opts"

text \<open>
  \<^verbatim>\<open>Math.round((completedSources / totalSources) * 100)\<close>, in exact arithmetic: the
  quotient rounded to the nearest integer, a half rounded up. The callback that computes
  it runs for a selected adapter, so \<^verbatim>\<open>totalSources\<close> is positive there.
\<close>

definition progress_percent :: "nat \<Rightarrow> nat \<Rightarrow> nat" where
  "progress_percent completed n = (200 * completed + n) div (2 * n)"

text \<open>The object literal of \<^verbatim>\<open>startScan\<close>.\<close>

definition new_scan :: "string \<Rightarrow> int \<Rightarrow> string \<Rightarrow> scan_options \<Rightarrow> aggregator \<Rightarrow> scan" where
  "new_scan scanId now q opts s =
     \<lparr>scan_id = scanId, query = q, options = opts, status = Running, startTime = now,
      endTime = None, progress = 0, results = [], errors = [],
      stats = \<lparr>totalSources = length (adapters s), completedSources = 0, totalResults = 0,
               uniqueResults = 0\<rparr>,
      fromCache = False\<rparr>"

text \<open>\<^verbatim>\<open>selectedAdapters\<close> of \<^verbatim>\<open>runScan\<close>, after the (stable) sort by priority.\<close>

definition select_adapters :: "aggregator \<Rightarrow> scan_options \<Rightarrow> adapter list" where
  "select_adapters s opts =
     sort_key priority
       (case opt_adapters opts of
          Some names \<Rightarrow> filter (\<lambda>a. name a \<in> set names) (adapters s)
        | None \<Rightarrow> adapters s)"

text \<open>
  \<^verbatim>\<open>runScan\<close> up to its \<^verbatim>\<open>await\<close>: it sets \<^verbatim>\<open>stats.totalSources\<close>, and the callback of
  \<^verbatim>\<open>selectedAdapters.map\<close> calls \<^verbatim>\<open>adapter.search\<close> for every selected adapter before
  it suspends.
\<close>

definition runScan_dispatch :: "string \<Rightarrow> scan_options \<Rightarrow> aggregator \<Rightarrow> aggregator" where
  "runScan_dispatch scanId opts s =
     (case scans s scanId of
        None \<Rightarrow> s
      | Some scan \<Rightarrow>
          (let selectedAdapters = select_adapters s opts in
           s\<lparr>scans := (scans s)(scanId \<mapsto>
                 scan\<lparr>stats := (stats scan)\<lparr>totalSources := length selectedAdapters\<rparr>\<rparr>),
             tasks := (tasks s)(scanId \<mapsto>
                 \<lparr>pending = map name selectedAdapters, awaiting = True\<rparr>),
             calls := calls s @ map (\<lambda>a. (scanId, name a)) selectedAdapters\<rparr>))"

text \<open>
  \<^verbatim>\<open>startScan\<close>. The identifier and the clock are the values \<^verbatim>\<open>generateScanId()\<close> and
  \<^verbatim>\<open>Date.now()\<close> return. On a live cache entry it returns before \<^verbatim>\<open>runScan\<close> is called.
\<close>

definition startScan :: "string \<Rightarrow> int \<Rightarrow> string \<Rightarrow> scan_options \<Rightarrow> aggregator \<Rightarrow> aggregator" where
  "startScan scanId now q opts s =
     (let scan = new_scan scanId now q opts s;
          s1 = s\<lparr>scans := (scans s)(scanId \<mapsto> scan)\<rparr>;
          cacheKey = getCacheKey q opts
      in case (if enableCache (config s) then cache s cacheKey else None) of
           Some cached \<Rightarrow>
             if now - timestamp cached < cacheTTL (config s) * 1000
             then s1\<lparr>scans := (scans s1)(scanId \<mapsto>
                       scan\<lparr>results := cached_results cached, status := Completed,
                            endTime := Some now, fromCache := True\<rparr>)\<rparr>
             else runScan_dispatch scanId opts s1
         | None \<Rightarrow> runScan_dispatch scanId opts s1)"

text \<open>
  How the race of one adapter settles: \<^verbatim>\<open>adapter.search\<close> returned a list, it raised an
  error with a message, or \<^verbatim>\<open>this.timeout(this.config.defaultTimeout)\<close> rejected first.
\<close>

datatype outcome = Returned "finding list" | Raised string | TimedOut

text \<open>The \<^verbatim>\<open>try\<close> branch of the adapter callback after its \<^verbatim>\<open>await\<close>.\<close>

definition adapter_success :: "finding list \<Rightarrow> scan \<Rightarrow> scan" where
  "adapter_success rs scan =
     (let completed = Suc (completedSources (stats scan)) in
      scan\<lparr>results := results scan @ rs,
           stats := (stats scan)\<lparr>totalResults := totalResults (stats scan) + length rs,
                                 completedSources := completed\<rparr>,
           progress := progress_percent completed (totalSources (stats scan))\<rparr>)"

text \<open>The \<^verbatim>\<open>catch\<close> branch of the adapter callback.\<close>

definition adapter_failure :: "string \<Rightarrow> string \<Rightarrow> scan \<Rightarrow> scan" where
  "adapter_failure adapterName message scan =
     (let completed = Suc (completedSources (stats scan)) in
      scan\<lparr>errors := errors scan @ [AdapterError adapterName message],
           stats := (stats scan)\<lparr>completedSources := completed\<rparr>,
           progress := progress_percent completed (totalSources (stats scan))\<rparr>)"

fun adapter_callback :: "string \<Rightarrow> outcome \<Rightarrow> scan \<Rightarrow> scan" where
  "adapter_callback adapterName (Returned rs) scan = adapter_success rs scan"
| "adapter_callback adapterName (Raised message) scan = adapter_failure adapterName message scan"
| "adapter_callback adapterName TimedOut scan = adapter_failure adapterName ''Timeout'' scan"

text \<open>
  The race of a pending adapter of a scan settles and its callback runs. The callback
  does not look at the status of the scan.
\<close>

definition adapter_settled :: "string \<Rightarrow> string \<Rightarrow> outcome \<Rightarrow> aggregator \<Rightarrow> aggregator" where
  "adapter_settled scanId adapterName out s =
     (case (scans s scanId, tasks s scanId) of
        (Some scan, Some task) \<Rightarrow>
          if adapterName \<in> set (pending task)
          then s\<lparr>scans := (scans s)(scanId \<mapsto> adapter_callback adapterName out scan),
                 tasks := (tasks s)(scanId \<mapsto>
                   task\<lparr>pending := remove1 adapterName (pending task)\<rparr>)\<rparr>
          else s
      | _ \<Rightarrow> s)"

text \<open>
  \<^verbatim>\<open>runScan\<close> after its \<^verbatim>\<open>await\<close>, when \<^verbatim>\<open>Promise.all(adapterPromises)\<close> has resolved:
  every callback has returned. It runs in the microtasks that follow the last callback
  (or the call of \<^verbatim>\<open>startScan\<close>, when no adapter is selected), before any timer.
\<close>

definition runScan_complete :: "string \<Rightarrow> int \<Rightarrow> aggregator \<Rightarrow> aggregator" where
  "runScan_complete scanId now s =
     (case (scans s scanId, tasks s scanId) of
        (Some scan, Some task) \<Rightarrow>
          if awaiting task \<and> pending task = []
          then (let fused = scoreResults (deduplicateResults (config s) (results scan)) (query scan);
                    sorted_results = sort_by_confidence fused;
                    scan' = scan\<lparr>results := sorted_results,
                                 stats := (stats scan)\<lparr>uniqueResults := length fused\<rparr>,
                                 status := Completed, endTime := Some now, progress := 100\<rparr>;
                    s' = s\<lparr>scans := (scans s)(scanId \<mapsto> scan'),
                           tasks := (tasks s)(scanId \<mapsto> task\<lparr>awaiting := False\<rparr>)\<rparr>
                in if enableCache (config s)
                   then s'\<lparr>cache := (cache s)(getCacheKey (query scan) (options scan) \<mapsto>
                            \<lparr>cached_results = sorted_results, timestamp = now\<rparr>)\<rparr>
                   else s')
          else s
      | _ \<Rightarrow> s)"

text \<open>
  The timer of \<^verbatim>\<open>this.timeout(this.config.totalTimeout)\<close> fires while \<^verbatim>\<open>runScan\<close> is
  suspended and an adapter is pending: the promise rejects, the \<^verbatim>\<open>await\<close> throws,
  \<^verbatim>\<open>runScan\<close> rejects and the \<^verbatim>\<open>catch\<close> handler of \<^verbatim>\<open>startScan\<close> runs. A timer fires
  no earlier than its delay after it was set.
\<close>

definition runScan_timeout :: "string \<Rightarrow> int \<Rightarrow> aggregator \<Rightarrow> aggregator" where
  "runScan_timeout scanId now s =
     (case (scans s scanId, tasks s scanId) of
        (Some scan, Some task) \<Rightarrow>
          if awaiting task \<and> pending task \<noteq> [] \<and> startTime scan + totalTimeout (config s) \<le> now
          then s\<lparr>scans := (scans s)(scanId \<mapsto>
                   scan\<lparr>status := Error, errors := errors scan @ [ScanError ''Timeout'']\<rparr>),
                 tasks := (tasks s)(scanId \<mapsto> task\<lparr>awaiting := False\<rparr>)\<rparr>
          else s
      | _ \<Rightarrow> s)"

text \<open>
  The pieces of code the event loop runs, in any order the environment chooses.
  \<^verbatim>\<open>generateScanId\<close> is taken to return an identifier that is not in the table.
\<close>

datatype event =
    RegisterAdapter adapter
  | StartScan string int string scan_options
  | AdapterSettled string string outcome
  | AllSettled string int
  | TotalTimeout string int

fun step :: "event \<Rightarrow> aggregator \<Rightarrow> aggregator" where
  "step (RegisterAdapter a) s = registerAdapter a s"
| "step (StartScan scanId now q opts) s =
     (if scans s scanId = None then startScan scanId now q opts s else s)"
| "step (AdapterSettled scanId adapterName out) s = adapter_settled scanId adapterName out s"
| "step (AllSettled scanId now) s = runScan_complete scanId now s"
| "step (TotalTimeout scanId now) s = runScan_timeout scanId now s"

definition run :: "event list \<Rightarrow> aggregator \<Rightarrow> aggregator" where
  "run evs s = foldl (\<lambda>s e. step e s) s evs"

subsection \<open>The scoring rule as the specification words it\<close>

text \<open>
  The specification's confidence: the starting confidence, plus 0.2 when verified, plus
  0.3 when the username equals the query without regard to case, plus 0.1 times the
  fraction of the five richness fields that are non-empty, clamped to the unit interval;
  and its three levels. They are compared with \<^const>\<open>score_result\<close> below.
\<close>

definition spec_clamp :: "real \<Rightarrow> real" where
  "spec_clamp x = (if x < 0 then 0 else if 1 < x then 1 else x)"

definition spec_username_matches :: "string \<Rightarrow> finding \<Rightarrow> bool" where
  "spec_username_matches q r =
     (case username r of None \<Rightarrow> False | Some u \<Rightarrow> toLowerCase u = toLowerCase q)"

definition spec_richness :: "finding \<Rightarrow> real" where
  "spec_richness r =
     real (length (filter truthy [displayName r, bio r, email r, location r, avatar r])) / 5"

definition spec_boosted :: "real \<Rightarrow> string \<Rightarrow> finding \<Rightarrow> real" where
  "spec_boosted start q r =
     spec_clamp (start + (if verified r then 0.2 else 0)
                 + (if spec_username_matches q r then 0.3 else 0) + 0.1 * spec_richness r)"

definition spec_confidence :: "string \<Rightarrow> finding \<Rightarrow> real" where
  "spec_confidence q r = spec_boosted (confidence r) q r"

definition spec_level :: "real \<Rightarrow> level" where
  "spec_level c = (if 0.8 \<le> c then High else if 0.5 \<le> c then Medium else Low)"

text \<open>
  The same rule where every literal and every operation is rounded by \<^term>\<open>rnd\<close>: the
  boosts are added one after the other, a boost that does not apply adds nothing, and the
  levels compare with the rounded 0.8 and 0.5.
\<close>

definition spec_plus_if :: "(real \<Rightarrow> real) \<Rightarrow> bool \<Rightarrow> real \<Rightarrow> real \<Rightarrow> real" where
  "spec_plus_if rnd b k x = (if b then rnd (x + rnd k) else x)"

definition spec_matches_with :: "(string \<Rightarrow> string) \<Rightarrow> string \<Rightarrow> finding \<Rightarrow> bool" where
  "spec_matches_with lower q r =
     (case username r of None \<Rightarrow> False | Some u \<Rightarrow> lower u = lower q)"

definition spec_fraction_with :: "(real \<Rightarrow> real) \<Rightarrow> finding \<Rightarrow> real" where
  "spec_fraction_with rnd r =
     rnd (real (length (filter truthy [displayName r, bio r, email r, location r, avatar r])) / 5)"

definition spec_boosted_with ::
  "(string \<Rightarrow> string) \<Rightarrow> (real \<Rightarrow> real) \<Rightarrow> real \<Rightarrow> string \<Rightarrow> finding \<Rightarrow> real" where
  "spec_boosted_with lower rnd start q r =
     spec_clamp
       (rnd (spec_plus_if rnd (spec_matches_with lower q r) 0.3
               (spec_plus_if rnd (verified r) 0.2 start)
             + rnd (spec_fraction_with rnd r * rnd 0.1)))"

definition spec_confidence_with ::
  "(string \<Rightarrow> string) \<Rightarrow> (real \<Rightarrow> real) \<Rightarrow> string \<Rightarrow> finding \<Rightarrow> real" where
  "spec_confidence_with lower rnd q r = spec_boosted_with lower rnd (confidence r) q r"

definition spec_level_with :: "(real \<Rightarrow> real) \<Rightarrow> real \<Rightarrow> level" where
  "spec_level_with rnd c =
     (if rnd 0.8 \<le> c then High else if rnd 0.5 \<le> c then Medium else Low)"

subsection \<open>Sample data\<close>

text \<open>
  A finding as the adapters of the test suite return it: an identifier and a confidence,
  every other property missing.
\<close>

definition bare_finding :: "string \<Rightarrow> real \<Rightarrow> finding" where
  "bare_finding i c =
     \<lparr>finding_id = i, source = [], confidence = c, verified = False, url = None,
      username = None, email = None, displayName = None, bio = None, location = None,
      avatar = None, confidenceLevel = None\<rparr>"

text \<open>
  A finding with a confidence of one half, verified, with no username and with all five
  richness fields.
\<close>

definition rich_finding :: finding where
  "rich_finding =
     \<lparr>finding_id = ''1'', source = ''github'', confidence = 1 / 2, verified = True,
      url = None, username = None, email = Some ''alice@example.com'',
      displayName = Some ''Alice'', bio = Some ''Developer'', location = Some ''Nairobi'',
      avatar = Some ''https://example.com/alice.png'', confidenceLevel = None\<rparr>"

subsection \<open>Writes to the cache\<close>

text \<open>
  The cache is written in one place, where \<^verbatim>\<open>runScan\<close> resumes after all its adapters
  have settled. An event completes a scan for a query and options when it is that
  resumption for a scan with this query and these options; a run leaves the query and
  options undisturbed when none of its events does.
\<close>

fun completes :: "string \<Rightarrow> scan_options \<Rightarrow> event \<Rightarrow> aggregator \<Rightarrow> bool" where
  "completes q opts (AllSettled scanId now) s =
     (case (scans s scanId, tasks s scanId) of
        (Some scan, Some task) \<Rightarrow>
          awaiting task \<and> pending task = [] \<and> query scan = q \<and> options scan = opts
      | _ \<Rightarrow> False)"
| "completes q opts e s = False"

fun undisturbed :: "string \<Rightarrow> scan_options \<Rightarrow> event list \<Rightarrow> aggregator \<Rightarrow> bool" where
  "undisturbed q opts [] s = True"
| "undisturbed q opts (e # evs) s =
     (\<not> completes q opts e s \<and> undisturbed q opts evs (step e s))"

text \<open>
  Where the text \<^verbatim>\<open>{"a\<close>, with which the serialized options begin when adapters are
  named, has been read: a scanner with the states 0 (nothing of it), 1 (the brace), 2
  (the brace and the quotation mark) and 3 (all of it, somewhere before).
\<close>

definition pat_step :: "nat \<Rightarrow> char \<Rightarrow> nat" where
  "pat_step s c =
     (if s = 3 then 3
      else if c = CHR 0x7B then 1
      else if s = 1 \<and> c = CHR 0x22 then 2
      else if s = 2 \<and> c = CHR ''a'' then 3
      else 0)"

definition pat_run :: "nat \<Rightarrow> string \<Rightarrow> nat" where
  "pat_run s cs = foldl pat_step s cs"

subsection \<open>Descending order and the invariant of the aggregator\<close>

definition descending :: "finding list \<Rightarrow> bool" where
  "descending rs = sorted_wrt (\<lambda>a b. confidence b \<le> confidence a) rs"

text \<open>
  What every state of the aggregator satisfies: the results of a completed scan and of a
  cache entry are in descending order, a completed scan has no pending adapter, and only
  a scan of the table has a suspended call.
\<close>

definition aggregator_inv :: "aggregator \<Rightarrow> bool" where
  "aggregator_inv s =
     ((\<forall>i j. scans s i = Some j \<and> status j = Completed \<longrightarrow>
         descending (results j) \<and> (\<forall>t. tasks s i = Some t \<longrightarrow> pending t = [])) \<and>
      (\<forall>k e. cache s k = Some e \<longrightarrow> descending (cached_results e)) \<and>
      (\<forall>i. scans s i = None \<longrightarrow> tasks s i = None))"

text \<open>
  What every scan of the table satisfies, given its suspended call when it has one: it is
  completed exactly when it has an end time; a completed scan is at 100 percent unless it
  was served from the cache; a completed scan has no pending adapter and no suspended
  \<^verbatim>\<open>runScan\<close>; and while \<^verbatim>\<open>runScan\<close> is suspended or an adapter is pending, the
  progress is the rounded share of the completed adapters, which together with the
  pending ones are the selected ones.
\<close>

definition scan_ok :: "scan \<Rightarrow> task option \<Rightarrow> bool" where
  "scan_ok j topt =
     (((status j = Completed) = (endTime j \<noteq> None)) \<and>
      (status j = Completed \<longrightarrow> fromCache j \<or> progress j = 100) \<and>
      (case topt of
         None \<Rightarrow> True
       | Some t \<Rightarrow>
           (status j = Completed \<longrightarrow> pending t = [] \<and> \<not> awaiting t) \<and>
           (awaiting t \<or> pending t \<noteq> [] \<longrightarrow>
              progress j = progress_percent (completedSources (stats j)) (totalSources (stats j)) \<and>
              completedSources (stats j) + length (pending t) = totalSources (stats j))))"

definition lifecycle_inv :: "aggregator \<Rightarrow> bool" where
  "lifecycle_inv s =
     ((\<forall>i j. scans s i = Some j \<longrightarrow> scan_ok j (tasks s i)) \<and>
      (\<forall>i. scans s i = None \<longrightarrow> tasks s i = None))"

section \<open>Deduplication\<close>

lemma dedupe_filter_append:
  "dedupe_filter fs seen (xs @ ys) =
     dedupe_filter fs seen xs @ dedupe_filter fs (seen_after fs seen xs) ys"
  by (induction xs arbitrary: seen) (simp_all add: Let_def split: option.splits)

lemma dedupe_filter_idem:
  "dedupe_filter fs seen (dedupe_filter fs seen xs) = dedupe_filter fs seen xs"
  by (induction xs arbitrary: seen) (simp_all add: Let_def split: option.splits)

lemma dedupe_filter_subseq: "subseq (dedupe_filter fs seen xs) xs"
  by (induction xs arbitrary: seen) (auto simp add: Let_def split: option.splits)

lemma dedupe_filter_keyless:
  "filter (\<lambda>r. dedupe_keys fs r = []) (dedupe_filter fs seen xs) =
   filter (\<lambda>r. dedupe_keys fs r = []) xs"
  by (induction xs arbitrary: seen) (simp_all add: Let_def split: option.splits)

lemma seen_after_keep:
  "dedupe_keys fs x = [] \<or> (\<exists>e. seen (dedupe_keys fs x) = Some e \<and> confidence x \<le> confidence e)
   \<Longrightarrow> seen_after fs seen (x # xs) = seen_after fs seen xs"
  by (auto simp add: Let_def)

lemma seen_after_put:
  "\<not> (dedupe_keys fs x = [] \<or> (\<exists>e. seen (dedupe_keys fs x) = Some e \<and> confidence x \<le> confidence e))
   \<Longrightarrow> seen_after fs seen (x # xs) = seen_after fs (seen(dedupe_keys fs x \<mapsto> x)) xs"
  by (cases "seen (dedupe_keys fs x)") (auto simp add: Let_def)

declare seen_after.simps(2) [simp del]

lemma seen_after_mono:
  "seen k = Some e \<Longrightarrow> \<exists>e'. seen_after fs seen xs k = Some e' \<and> confidence e \<le> confidence e'"
proof (induction xs arbitrary: seen e)
  case Nil
  then show ?case by simp
next
  case (Cons x xs)
  let ?K = "dedupe_keys fs x = [] \<or> (\<exists>e. seen (dedupe_keys fs x) = Some e \<and> confidence x \<le> confidence e)"
  show ?case
  proof (cases ?K)
    case True
    then have "seen_after fs seen (x # xs) = seen_after fs seen xs"
      by (rule seen_after_keep)
    then show ?thesis using Cons.IH[of seen e] Cons.prems by simp
  next
    case False
    then have put: "seen_after fs seen (x # xs) = seen_after fs (seen(dedupe_keys fs x \<mapsto> x)) xs"
      by (rule seen_after_put)
    show ?thesis
    proof (cases "dedupe_keys fs x = k")
      case True
      then have "(seen(dedupe_keys fs x \<mapsto> x)) k = Some x" by simp
      then obtain e' where
        "seen_after fs (seen(dedupe_keys fs x \<mapsto> x)) xs k = Some e'" "confidence x \<le> confidence e'"
        using Cons.IH by blast
      moreover have "confidence e < confidence x" using False True Cons.prems by auto
      ultimately show ?thesis unfolding put by auto
    next
      case neq: False
      then have "(seen(dedupe_keys fs x \<mapsto> x)) k = Some e" using Cons.prems by simp
      then show ?thesis unfolding put by (rule Cons.IH)
    qed
  qed
qed

lemma seen_after_covers:
  "x \<in> set xs \<Longrightarrow> dedupe_keys fs x \<noteq> [] \<Longrightarrow>
   \<exists>e. seen_after fs seen xs (dedupe_keys fs x) = Some e \<and> confidence x \<le> confidence e"
proof (induction xs arbitrary: seen)
  case Nil
  then show ?case by simp
next
  case (Cons y ys)
  let ?K = "dedupe_keys fs y = [] \<or> (\<exists>e. seen (dedupe_keys fs y) = Some e \<and> confidence y \<le> confidence e)"
  show ?case
  proof (cases "x = y")
    case True
    show ?thesis
    proof (cases ?K)
      case keep: True
      then have eq: "seen_after fs seen (y # ys) = seen_after fs seen ys"
        by (rule seen_after_keep)
      from keep obtain e where e: "seen (dedupe_keys fs x) = Some e" "confidence x \<le> confidence e"
        using True Cons.prems(2) by auto
      from e(1) obtain e' where
        "seen_after fs seen ys (dedupe_keys fs x) = Some e'" "confidence e \<le> confidence e'"
        using seen_after_mono by blast
      then show ?thesis unfolding eq using e(2) by auto
    next
      case put: False
      then have eq: "seen_after fs seen (y # ys) = seen_after fs (seen(dedupe_keys fs y \<mapsto> y)) ys"
        by (rule seen_after_put)
      have "(seen(dedupe_keys fs y \<mapsto> y)) (dedupe_keys fs x) = Some x" using True by simp
      then show ?thesis unfolding eq by (rule seen_after_mono)
    qed
  next
    case False
    then have "x \<in> set ys" using Cons.prems by auto
    then have *: "\<exists>e. seen_after fs s ys (dedupe_keys fs x) = Some e \<and> confidence x \<le> confidence e" for s
      using Cons.IH[of s] Cons.prems(2) by blast
    show ?thesis
    proof (cases ?K)
      case True
      then have "seen_after fs seen (y # ys) = seen_after fs seen ys"
        by (rule seen_after_keep)
      then show ?thesis using *[of seen] by simp
    next
      case put: False
      then have "seen_after fs seen (y # ys) = seen_after fs (seen(dedupe_keys fs y \<mapsto> y)) ys"
        by (rule seen_after_put)
      then show ?thesis using *[of "seen(dedupe_keys fs y \<mapsto> y)"] by simp
    qed
  qed
qed

declare seen_after.simps(2) [simp]

lemma seen_after_origin:
  "seen_after fs seen xs k = Some e \<Longrightarrow>
   seen k = Some e \<or> (e \<in> set (dedupe_filter fs seen xs) \<and> dedupe_keys fs e = k)"
proof (induction xs arbitrary: seen)
  case Nil
  then show ?case by simp
next
  case (Cons y ys)
  then show ?case
    by (fastforce simp add: Let_def split: option.splits if_splits)
qed

lemma dedupe_filter_drop:
  assumes "dedupe_keys fs r \<noteq> []"
    and "e \<in> set pre" and "dedupe_keys fs e = dedupe_keys fs r"
    and "confidence r \<le> confidence e"
  shows "dedupe_filter fs seen (pre @ r # post) = dedupe_filter fs seen (pre @ post)"
proof -
  from seen_after_covers[of e pre fs seen] assms obtain x where
    x: "seen_after fs seen pre (dedupe_keys fs r) = Some x" "confidence e \<le> confidence x"
    by auto
  then have "dedupe_filter fs (seen_after fs seen pre) (r # post) =
             dedupe_filter fs (seen_after fs seen pre) post"
    using assms(1,4) by (simp add: Let_def)
  then show ?thesis by (simp only: dedupe_filter_append)
qed

lemma dedupe_filter_best:
  assumes "r \<in> set rs" and "dedupe_keys fs r \<noteq> []"
  shows "\<exists>s \<in> set (dedupe_filter fs Map.empty rs).
           dedupe_keys fs s = dedupe_keys fs r \<and> confidence r \<le> confidence s"
proof -
  from seen_after_covers[OF assms, of Map.empty] obtain e where
    e: "seen_after fs Map.empty rs (dedupe_keys fs r) = Some e" "confidence r \<le> confidence e"
    by blast
  from seen_after_origin[OF e(1)] have "e \<in> set (dedupe_filter fs Map.empty rs)"
    "dedupe_keys fs e = dedupe_keys fs r" by simp_all
  with e(2) show ?thesis by blast
qed

lemma dedupe_pair:
  assumes "dedupe_keys fs a \<noteq> []" "dedupe_keys fs a = dedupe_keys fs b" "confidence b \<le> confidence a"
  shows "dedupe_filter fs Map.empty [a, b] = [a]"
  using assms by (simp add: Let_def)

text \<open>
  Claim C4, as amended. The key of a finding is the join, with \<^verbatim>\<open>|\<close>, of all its
  non-empty dedupe fields in the configured order (url, username, email by default), not
  the first of them. Deduplication keeps the order of the findings and adds none; the
  findings with an empty key all pass; of the findings with a given key, one whose
  confidence is at least that of any other survives; a finding is dropped, and leaves no
  trace in the result, when an earlier finding with its key has a confidence at least as
  high, so that a tie keeps the earlier finding; and of two findings with the same key and
  confidences 0.8 and 0.6 in this order, exactly the first remains.
\<close>

theorem deduplicateResults_groups:
  "dedupe_keys (dedupeFields AGGREGATOR_CONFIG) x =
     join ''|'' (filter_Boolean [url x, username x, email x]) \<and>
   subseq (deduplicateResults cfg rs) rs \<and>
   filter (\<lambda>r. dedupe_keys (dedupeFields cfg) r = []) (deduplicateResults cfg rs) =
     filter (\<lambda>r. dedupe_keys (dedupeFields cfg) r = []) rs \<and>
   (\<forall>r \<in> set rs. dedupe_keys (dedupeFields cfg) r \<noteq> [] \<longrightarrow>
      (\<exists>s \<in> set (deduplicateResults cfg rs).
         dedupe_keys (dedupeFields cfg) s = dedupe_keys (dedupeFields cfg) r \<and>
         confidence r \<le> confidence s)) \<and>
   (\<forall>pre r post. rs = pre @ r # post \<and> dedupe_keys (dedupeFields cfg) r \<noteq> [] \<and>
      (\<exists>e \<in> set pre. dedupe_keys (dedupeFields cfg) e = dedupe_keys (dedupeFields cfg) r \<and>
         confidence r \<le> confidence e)
      \<longrightarrow> deduplicateResults cfg rs = deduplicateResults cfg (pre @ post)) \<and>
   (\<forall>a b. dedupe_keys (dedupeFields cfg) a \<noteq> [] \<and>
      dedupe_keys (dedupeFields cfg) a = dedupe_keys (dedupeFields cfg) b \<and>
      confidence a = 0.8 \<and> confidence b = 0.6
      \<longrightarrow> deduplicateResults cfg [a, b] = [a])"
proof -
  have 1: "dedupe_keys (dedupeFields AGGREGATOR_CONFIG) x =
     join ''|'' (filter_Boolean [url x, username x, email x])"
    by (simp add: dedupe_keys_def AGGREGATOR_CONFIG_def)
  have 2: "subseq (deduplicateResults cfg rs) rs"
    unfolding deduplicateResults_def by (rule dedupe_filter_subseq)
  have 3: "filter (\<lambda>r. dedupe_keys (dedupeFields cfg) r = []) (deduplicateResults cfg rs) =
     filter (\<lambda>r. dedupe_keys (dedupeFields cfg) r = []) rs"
    unfolding deduplicateResults_def by (rule dedupe_filter_keyless)
  have 4: "\<exists>s \<in> set (deduplicateResults cfg rs).
         dedupe_keys (dedupeFields cfg) s = dedupe_keys (dedupeFields cfg) r \<and>
         confidence r \<le> confidence s"
    if "r \<in> set rs" "dedupe_keys (dedupeFields cfg) r \<noteq> []" for r
    unfolding deduplicateResults_def using that by (rule dedupe_filter_best)
  have 5: "deduplicateResults cfg rs = deduplicateResults cfg (pre @ post)"
    if "rs = pre @ r # post" "dedupe_keys (dedupeFields cfg) r \<noteq> []"
       "e \<in> set pre" "dedupe_keys (dedupeFields cfg) e = dedupe_keys (dedupeFields cfg) r"
       "confidence r \<le> confidence e" for pre r post e
    unfolding deduplicateResults_def that(1) using that(2-5) by (rule dedupe_filter_drop)
  have 6: "deduplicateResults cfg [a, b] = [a]"
    if "dedupe_keys (dedupeFields cfg) a \<noteq> []"
       "dedupe_keys (dedupeFields cfg) a = dedupe_keys (dedupeFields cfg) b"
       "confidence a = 0.8" "confidence b = 0.6" for a b
    unfolding deduplicateResults_def using that by (intro dedupe_pair) simp_all
  from 1 2 3 4 5 6 show ?thesis by blast
qed

theorem deduplicateResults_groups_witness:
  "dedupe_keys (dedupeFields AGGREGATOR_CONFIG)
      ((bare_finding ''1'' 0.8)\<lparr>url := Some ''https://example.com/user''\<rparr>) \<noteq> [] \<and>
   dedupe_keys (dedupeFields AGGREGATOR_CONFIG)
      ((bare_finding ''1'' 0.8)\<lparr>url := Some ''https://example.com/user''\<rparr>) =
   dedupe_keys (dedupeFields AGGREGATOR_CONFIG)
      ((bare_finding ''2'' 0.6)\<lparr>url := Some ''https://example.com/user''\<rparr>) \<and>
   deduplicateResults AGGREGATOR_CONFIG
     [(bare_finding ''1'' 0.8)\<lparr>url := Some ''https://example.com/user''\<rparr>,
      (bare_finding ''2'' 0.6)\<lparr>url := Some ''https://example.com/user''\<rparr>] =
     [(bare_finding ''1'' 0.8)\<lparr>url := Some ''https://example.com/user''\<rparr>] \<and>
   deduplicateResults AGGREGATOR_CONFIG
     [(bare_finding ''1'' 0.8)\<lparr>url := Some ''https://example.com/user''\<rparr>,
      (bare_finding ''2'' 0.6)\<lparr>url := Some ''https://example.com/user''\<rparr>] =
   deduplicateResults AGGREGATOR_CONFIG
     ([(bare_finding ''1'' 0.8)\<lparr>url := Some ''https://example.com/user''\<rparr>] @ []) \<and>
   (\<exists>s \<in> set (deduplicateResults AGGREGATOR_CONFIG
       [(bare_finding ''1'' 0.8)\<lparr>url := Some ''https://example.com/user''\<rparr>,
        (bare_finding ''2'' 0.6)\<lparr>url := Some ''https://example.com/user''\<rparr>]).
      dedupe_keys (dedupeFields AGGREGATOR_CONFIG) s =
        dedupe_keys (dedupeFields AGGREGATOR_CONFIG)
          ((bare_finding ''2'' 0.6)\<lparr>url := Some ''https://example.com/user''\<rparr>) \<and>
      confidence ((bare_finding ''2'' 0.6)\<lparr>url := Some ''https://example.com/user''\<rparr>)
        \<le> confidence s)"
proof -
  let ?a = "(bare_finding ''1'' 0.8)\<lparr>url := Some ''https://example.com/user''\<rparr>"
  let ?b = "(bare_finding ''2'' 0.6)\<lparr>url := Some ''https://example.com/user''\<rparr>"
  let ?key = "dedupe_keys (dedupeFields AGGREGATOR_CONFIG)"
  note inst = deduplicateResults_groups[of ?a AGGREGATOR_CONFIG "[?a, ?b]"]
  have k: "?key ?a = ''https://example.com/user''" "?key ?b = ''https://example.com/user''"
    by (simp_all add: dedupe_keys_def AGGREGATOR_CONFIG_def bare_finding_def)
  have c: "confidence ?a = 0.8" "confidence ?b = 0.6" by (simp_all add: bare_finding_def)
  from inst have "\<forall>a b. ?key a \<noteq> [] \<and> ?key a = ?key b \<and> confidence a = 0.8 \<and> confidence b = 0.6
      \<longrightarrow> deduplicateResults AGGREGATOR_CONFIG [a, b] = [a]"
    by blast
  then have pair: "deduplicateResults AGGREGATOR_CONFIG [?a, ?b] = [?a]"
    using k c by simp
  from inst have "\<forall>pre r post. [?a, ?b] = pre @ r # post \<and> ?key r \<noteq> [] \<and>
      (\<exists>e \<in> set pre. ?key e = ?key r \<and> confidence r \<le> confidence e)
      \<longrightarrow> deduplicateResults AGGREGATOR_CONFIG [?a, ?b] =
          deduplicateResults AGGREGATOR_CONFIG (pre @ post)"
    by blast
  then have "[?a, ?b] = [?a] @ ?b # [] \<and> ?key ?b \<noteq> [] \<and>
      (\<exists>e \<in> set [?a]. ?key e = ?key ?b \<and> confidence ?b \<le> confidence e)
      \<longrightarrow> deduplicateResults AGGREGATOR_CONFIG [?a, ?b] =
          deduplicateResults AGGREGATOR_CONFIG ([?a] @ [])"
    by blast
  then have drop: "deduplicateResults AGGREGATOR_CONFIG [?a, ?b] =
      deduplicateResults AGGREGATOR_CONFIG ([?a] @ [])"
    using k c by simp
  from inst have "\<forall>r \<in> set [?a, ?b]. ?key r \<noteq> [] \<longrightarrow>
      (\<exists>s \<in> set (deduplicateResults AGGREGATOR_CONFIG [?a, ?b]).
         ?key s = ?key r \<and> confidence r \<le> confidence s)"
    by blast
  then have best: "\<exists>s \<in> set (deduplicateResults AGGREGATOR_CONFIG [?a, ?b]).
         ?key s = ?key ?b \<and> confidence ?b \<le> confidence s"
    using k by simp
  from k pair drop best show ?thesis by simp
qed

text \<open>
  Claim C4 as stated fails twice. Two findings with one url and different usernames have
  different keys, so both stay. And of two findings with the same key, the one of lower
  confidence that comes first has passed the filter before the other is seen, so both
  stay.
\<close>

theorem deduplicateResults_keeps_both:
  "deduplicateResults AGGREGATOR_CONFIG
     [(bare_finding ''1'' 0.8)\<lparr>url := Some ''https://example.com/user'', username := Some ''alice''\<rparr>,
      (bare_finding ''2'' 0.6)\<lparr>url := Some ''https://example.com/user'', username := Some ''bob''\<rparr>] =
     [(bare_finding ''1'' 0.8)\<lparr>url := Some ''https://example.com/user'', username := Some ''alice''\<rparr>,
      (bare_finding ''2'' 0.6)\<lparr>url := Some ''https://example.com/user'', username := Some ''bob''\<rparr>] \<and>
   deduplicateResults AGGREGATOR_CONFIG
     [(bare_finding ''2'' 0.6)\<lparr>url := Some ''https://example.com/user''\<rparr>,
      (bare_finding ''1'' 0.8)\<lparr>url := Some ''https://example.com/user''\<rparr>] =
     [(bare_finding ''2'' 0.6)\<lparr>url := Some ''https://example.com/user''\<rparr>,
      (bare_finding ''1'' 0.8)\<lparr>url := Some ''https://example.com/user''\<rparr>]"
  by (simp add: deduplicateResults_def AGGREGATOR_CONFIG_def dedupe_keys_def bare_finding_def Let_def)

text \<open>
  Claim C8, as amended: deduplication is idempotent. (The whole fusion is not: scoring
  adds its boosts again.)
\<close>

theorem deduplicateResults_idempotent:
  "deduplicateResults cfg (deduplicateResults cfg rs) = deduplicateResults cfg rs"
  by (simp add: deduplicateResults_def dedupe_filter_idem)

section \<open>Scoring\<close>

lemma username_match_iff:
  "(map_option toLowerCase (username r) = Some (toLowerCase q)) = spec_username_matches q r"
  by (cases "username r") (simp_all add: spec_username_matches_def)

lemma filled_fields:
  "real (length (filter (\<lambda>f. truthy (get_field f r)) dataFields)) / real (length dataFields)
     = spec_richness r"
  by (simp add: dataFields_def spec_richness_def)

lemma clamp_min_max: "min 1 (max 0 x) = spec_clamp x"
  by (simp add: spec_clamp_def min_def max_def)

lemma boosts_sum:
  "(if m then (if v then s + 0.2 else s) + 0.3 else (if v then s + 0.2 else s)) + rich * 0.1
     = s + (if v then 0.2 else 0) + (if m then 0.3 else 0) + 0.1 * (rich::real)"
  by (cases m; cases v; simp)

lemma score_result_eq:
  "score_result q r =
     r\<lparr>confidence := spec_boosted (if confidence r = 0 then 0.5 else confidence r) q r,
       confidenceLevel :=
         Some (spec_level (spec_boosted (if confidence r = 0 then 0.5 else confidence r) q r))\<rparr>"
  unfolding score_result_def Let_def username_match_iff filled_fields boosts_sum clamp_min_max
    spec_boosted_def spec_level_def
  by (rule refl)


lemma score_result_level:
  "confidenceLevel (score_result q r) = Some (spec_level (confidence (score_result q r)))"
  by (subst (1 2) score_result_eq) simp

lemma match_with_iff:
  "(map_option lower (username r) = Some (lower q)) = spec_matches_with lower q r"
  by (cases "username r") (simp_all add: spec_matches_with_def)

lemma fraction_with:
  "rnd (real (length (filter (\<lambda>f. truthy (get_field f r)) dataFields)) / real (length dataFields))
     = spec_fraction_with rnd r"
  by (simp add: dataFields_def spec_fraction_with_def)

lemma score_result_with_eq:
  "score_result_with lower rnd q r =
     r\<lparr>confidence :=
          spec_boosted_with lower rnd (if confidence r = 0 then rnd 0.5 else confidence r) q r,
       confidenceLevel :=
         Some (spec_level_with rnd
                 (spec_boosted_with lower rnd
                    (if confidence r = 0 then rnd 0.5 else confidence r) q r))\<rparr>"
  unfolding score_result_with_def Let_def match_with_iff fraction_with clamp_min_max
    spec_boosted_with_def spec_plus_if_def spec_level_with_def
  by (rule refl)

lemma score_result_exact: "score_result_with toLowerCase (\<lambda>x. x) q r = score_result q r"
  unfolding score_result_with_def score_result_def by (rule refl)

lemma exponent_of_numeral:
  "exponent_of (numeral k) x =
     (if 2 \<le> x then exponent_of (pred_numeral k) (x / 2) + 1
      else if x < 1 then exponent_of (pred_numeral k) (2 * x) - 1
      else 0)"
  by (simp add: numeral_eq_Suc)

lemma round_double_pos:
  assumes "0 < x" and "exponent_of 2200 x = e" and "- 1022 \<le> e" and "e < 52"
    and "round_to_even (x * 2 ^ nat (52 - e)) = m"
  shows "round_double x = of_int m / 2 ^ nat (52 - e)"
proof -
  have a: "\<bar>x\<bar> = x" and n: "x \<noteq> 0" "\<not> x < 0"
    using assms(1) by simp_all
  have m: "max e (- 1022) = e" and l: "\<not> 52 \<le> e"
    using assms(3,4) by simp_all
  have d: "x / (1 / 2 ^ nat (52 - e)) = x * 2 ^ nat (52 - e)"
    by simp
  show ?thesis
    unfolding round_double_def Let_def a assms(2) m
    using n l d assms(5) by simp
qed

lemmas double_eval = exponent_of_numeral round_to_even_def Let_def

lemma double_09: "round_double 0.9 = of_int 8106479329266893 / 2 ^ nat (52 - (- 1))"
  by (rule round_double_pos) (simp_all add: double_eval)

lemma double_08: "round_double 0.8 = of_int 7205759403792794 / 2 ^ nat (52 - (- 1))"
  by (rule round_double_pos) (simp_all add: double_eval)

lemma double_06: "round_double 0.6 = of_int 5404319552844595 / 2 ^ nat (52 - (- 1))"
  by (rule round_double_pos) (simp_all add: double_eval)

lemma double_05: "round_double 0.5 = of_int 4503599627370496 / 2 ^ nat (52 - (- 1))"
  by (rule round_double_pos) (simp_all add: double_eval)

lemma double_03: "round_double 0.3 = of_int 5404319552844595 / 2 ^ nat (52 - (- 2))"
  by (rule round_double_pos) (simp_all add: double_eval)

lemma double_02: "round_double 0.2 = of_int 7205759403792794 / 2 ^ nat (52 - (- 3))"
  by (rule round_double_pos) (simp_all add: double_eval)

lemma double_01: "round_double 0.1 = of_int 7205759403792794 / 2 ^ nat (52 - (- 4))"
  by (rule round_double_pos) (simp_all add: double_eval)

lemma double_1: "round_double 1 = of_int 4503599627370496 / 2 ^ nat (52 - 0)"
  by (rule round_double_pos) (simp_all add: double_eval)

lemma double_levels:
  "spec_level_with round_double (round_double 0.9) = High"
  "spec_level_with round_double (round_double 0.6) = Medium"
  "spec_level_with round_double (round_double 0.3) = Low"
  unfolding spec_level_with_def double_09 double_08 double_06 double_05 double_03
  by simp_all

text \<open>0.5 + 0.2 is 0.7, a tie that goes to the even significand.\<close>

lemma double_05_plus_02:
  "round_double (1 / 2 + round_double 0.2) = of_int 6305039478318694 / 2 ^ nat (52 - (- 1))"
  unfolding double_02 by (rule round_double_pos) (simp_all add: double_eval)

lemma double_1_times_01:
  "round_double (round_double 1 * round_double 0.1) = of_int 7205759403792794 / 2 ^ nat (52 - (- 4))"
  unfolding double_1 double_01 by (rule round_double_pos) (simp_all add: double_eval)

lemma double_07_plus_01:
  "round_double (round_double (1 / 2 + round_double 0.2)
                 + round_double (round_double 1 * round_double 0.1))
     = of_int 7205759403792793 / 2 ^ nat (52 - (- 1))"
  unfolding double_05_plus_02 double_1_times_01
  by (rule round_double_pos) (simp_all add: double_eval)

lemma double_0: "round_double 0 = 0"
  by (simp add: round_double_def)

lemma double_0_times_01: "round_double (round_double 0 * round_double 0.1) = 0"
  by (simp add: double_0)

text \<open>0.7 + 0.3 is 1, again a tie.\<close>

lemma double_07_plus_03:
  "round_double (round_double (1 / 2 + round_double 0.2) + round_double 0.3)
     = of_int 9007199254740992 / 2 ^ nat (52 - (- 1))"
  unfolding double_05_plus_02 double_03
  by (rule round_double_pos) (simp_all add: double_eval)

lemma double_1_plus_0:
  "round_double (round_double (round_double (1 / 2 + round_double 0.2) + round_double 0.3)
                 + round_double (round_double 0 * round_double 0.1)) = 1"
proof -
  have "round_double (of_int 9007199254740992 / 2 ^ nat (52 - (- 1)) + 0)
      = of_int 4503599627370496 / 2 ^ nat (52 - 0)"
    by (rule round_double_pos) (simp_all add: double_eval)
  then show ?thesis unfolding double_07_plus_03 double_0_times_01 by simp
qed

lemma double_05_plus_0:
  "round_double (round_double 0.5 + round_double (round_double 0 * round_double 0.1)) = 1 / 2"
proof -
  have "round_double (of_int 4503599627370496 / 2 ^ nat (52 - (- 1)) + 0)
      = of_int 4503599627370496 / 2 ^ nat (52 - (- 1))"
    by (rule round_double_pos) (simp_all add: double_eval)
  then show ?thesis unfolding double_05 double_0_times_01 by simp
qed

lemma level_of_1: "spec_level_with round_double 1 = High"
  unfolding spec_level_with_def double_08 by simp

lemma level_of_half: "spec_level_with round_double (1 / 2) = Medium"
  unfolding spec_level_with_def double_08 double_05 by simp

lemma level_below_08:
  "spec_level_with round_double (7205759403792793 / 9007199254740992) = Medium"
  unfolding spec_level_with_def double_08 double_05 by simp

lemma toLowerCase_TestUser: "toLowerCase ''TestUser'' = toLowerCase ''testuser''"
  by code_simp

lemma boosted_rich:
  "spec_boosted_with toLowerCase round_double (1 / 2) ''testuser'' rich_finding
    = 7205759403792793 / 9007199254740992"
proof -
  have "spec_boosted_with toLowerCase round_double (1 / 2) ''testuser'' rich_finding
      = spec_clamp (round_double (round_double (1 / 2 + round_double 0.2)
                 + round_double (round_double 1 * round_double 0.1)))"
    by (simp add: spec_boosted_with_def spec_plus_if_def spec_matches_with_def
        spec_fraction_with_def rich_finding_def)
  also have "\<dots> = 7205759403792793 / 9007199254740992"
    unfolding double_07_plus_01 by (simp add: spec_clamp_def)
  finally show ?thesis .
qed

lemma boosted_zero:
  "spec_boosted_with toLowerCase round_double (round_double 0.5) ''testuser'' (bare_finding ''1'' 0)
    = 1 / 2"
proof -
  have "spec_boosted_with toLowerCase round_double (round_double 0.5) ''testuser'' (bare_finding ''1'' 0)
      = spec_clamp (round_double (round_double 0.5
                 + round_double (round_double 0 * round_double 0.1)))"
    by (simp add: spec_boosted_with_def spec_plus_if_def spec_matches_with_def
        spec_fraction_with_def bare_finding_def)
  also have "\<dots> = 1 / 2"
    unfolding double_05_plus_0 by (simp add: spec_clamp_def)
  finally show ?thesis .
qed

lemma boosted_match:
  "spec_boosted_with toLowerCase round_double (1 / 2) ''testuser''
     ((bare_finding ''1'' (1 / 2))\<lparr>verified := True, username := Some ''TestUser''\<rparr>) = 1"
proof -
  have "spec_boosted_with toLowerCase round_double (1 / 2) ''testuser''
     ((bare_finding ''1'' (1 / 2))\<lparr>verified := True, username := Some ''TestUser''\<rparr>)
      = spec_clamp (round_double (round_double (round_double (1 / 2 + round_double 0.2) + round_double 0.3)
                 + round_double (round_double 0 * round_double 0.1)))"
    by (simp add: spec_boosted_with_def spec_plus_if_def spec_matches_with_def
        spec_fraction_with_def bare_finding_def toLowerCase_TestUser)
  also have "\<dots> = 1"
    unfolding double_1_plus_0 by (simp add: spec_clamp_def)
  finally show ?thesis .
qed

text \<open>
  Claim C5, as amended. For a finding whose starting confidence is not 0,
  \<^verbatim>\<open>scoreResults\<close>, computing in double precision, changes the confidence to the
  specification's value computed in double precision (the starting confidence and the three
  boosts, added in this order and rounded each time, clamped), sets the level of that
  value, and changes nothing else; the levels of 0.9, 0.6 and 0.3 are high, medium and low.
  The lower-casing is any function on strings.
\<close>

theorem scoreResults_double_spec:
  "length (scoreResults_with lower round_double rs q) = length rs \<and>
   (\<forall>i < length rs. confidence (rs ! i) \<noteq> 0 \<longrightarrow>
      scoreResults_with lower round_double rs q ! i =
        (rs ! i)\<lparr>confidence := spec_confidence_with lower round_double q (rs ! i),
                 confidenceLevel :=
                   Some (spec_level_with round_double
                           (spec_confidence_with lower round_double q (rs ! i)))\<rparr>) \<and>
   spec_level_with round_double (round_double 0.9) = High \<and>
   spec_level_with round_double (round_double 0.6) = Medium \<and>
   spec_level_with round_double (round_double 0.3) = Low"
proof -
  have "scoreResults_with lower round_double rs q ! i =
        (rs ! i)\<lparr>confidence := spec_confidence_with lower round_double q (rs ! i),
                 confidenceLevel :=
                   Some (spec_level_with round_double
                           (spec_confidence_with lower round_double q (rs ! i)))\<rparr>"
    if "i < length rs" "confidence (rs ! i) \<noteq> 0" for i
  proof -
    have "scoreResults_with lower round_double rs q ! i
        = score_result_with lower round_double q (rs ! i)"
      using that(1) by (simp add: scoreResults_with_def)
    then show ?thesis
      using that(2) by (simp add: score_result_with_eq spec_confidence_with_def)
  qed
  moreover have "length (scoreResults_with lower round_double rs q) = length rs"
    by (simp add: scoreResults_with_def)
  ultimately show ?thesis using double_levels by blast
qed

theorem scoreResults_double_spec_witness:
  "confidence ([(bare_finding ''1'' (1 / 2))\<lparr>verified := True, username := Some ''TestUser''\<rparr>] ! 0) \<noteq> 0 \<and>
   scoreResults_with toLowerCase round_double
     [(bare_finding ''1'' (1 / 2))\<lparr>verified := True, username := Some ''TestUser''\<rparr>] ''testuser'' ! 0 =
     (bare_finding ''1'' (1 / 2))\<lparr>verified := True, username := Some ''TestUser'',
                                confidence := 1, confidenceLevel := Some High\<rparr>"
proof -
  let ?r = "(bare_finding ''1'' (1 / 2))\<lparr>verified := True, username := Some ''TestUser''\<rparr>"
  have nz: "confidence ([?r] ! 0) \<noteq> 0" by (simp add: bare_finding_def)
  have c: "spec_confidence_with toLowerCase round_double ''testuser'' ([?r] ! 0) = 1"
    using boosted_match by (simp add: spec_confidence_with_def bare_finding_def)
  have "0 < length [?r]" by simp
  with nz scoreResults_double_spec[of toLowerCase "[?r]" "''testuser''"]
  have "scoreResults_with toLowerCase round_double [?r] ''testuser'' ! 0 =
        ([?r] ! 0)\<lparr>confidence := spec_confidence_with toLowerCase round_double ''testuser'' ([?r] ! 0),
                  confidenceLevel := Some (spec_level_with round_double
                     (spec_confidence_with toLowerCase round_double ''testuser'' ([?r] ! 0)))\<rparr>"
    by blast
  then have "scoreResults_with toLowerCase round_double [?r] ''testuser'' ! 0 =
        ([?r] ! 0)\<lparr>confidence := 1, confidenceLevel := Some High\<rparr>"
    unfolding c level_of_1 .
  with nz show ?thesis by (simp add: bare_finding_def)
qed

text \<open>
  Claim C5 as stated fails twice. A starting confidence of 0 is replaced by 0.5 in
  \<^verbatim>\<open>result.confidence || 0.5\<close>: the result is 0.5 and medium, where the specification's
  rule gives 0 and low. And the sums are sums of doubles: for a verified finding of
  confidence 0.5 with all five richness fields the result is 0.7999999999999999 and
  medium, where the rule gives 0.8 and high.
\<close>

theorem scoreResults_differs:
  "scoreResults_with toLowerCase round_double [bare_finding ''1'' 0] ''testuser'' =
     [(bare_finding ''1'' 0)\<lparr>confidence := 1 / 2, confidenceLevel := Some Medium\<rparr>] \<and>
   spec_confidence ''testuser'' (bare_finding ''1'' 0) = 0 \<and> spec_level 0 = Low \<and>
   scoreResults_with toLowerCase round_double [rich_finding] ''testuser'' =
     [rich_finding\<lparr>confidence := 7205759403792793 / 9007199254740992,
                    confidenceLevel := Some Medium\<rparr>] \<and>
   spec_confidence ''testuser'' rich_finding = 0.8 \<and> spec_level 0.8 = High"
proof -
  have z: "(if confidence (bare_finding ''1'' 0) = 0 then round_double 0.5
            else confidence (bare_finding ''1'' 0)) = round_double 0.5"
    by (simp add: bare_finding_def)
  have "score_result_with toLowerCase round_double ''testuser'' (bare_finding ''1'' 0)
      = (bare_finding ''1'' 0)\<lparr>confidence := 1 / 2, confidenceLevel := Some Medium\<rparr>"
    unfolding score_result_with_eq z boosted_zero level_of_half by (rule refl)
  moreover have "spec_confidence ''testuser'' (bare_finding ''1'' 0) = 0"
    by (simp add: bare_finding_def spec_confidence_def spec_boosted_def spec_clamp_def
        spec_richness_def spec_username_matches_def)
  moreover have "spec_level 0 = Low \<and> spec_level 0.8 = High" by (simp add: spec_level_def)
  moreover have r: "(if confidence rich_finding = 0 then round_double 0.5 else confidence rich_finding)
      = 1 / 2" by (simp add: rich_finding_def)
  have "score_result_with toLowerCase round_double ''testuser'' rich_finding
      = rich_finding\<lparr>confidence := 7205759403792793 / 9007199254740992,
                    confidenceLevel := Some Medium\<rparr>"
    unfolding score_result_with_eq r boosted_rich level_below_08 by (rule refl)
  moreover have "spec_confidence ''testuser'' rich_finding = 0.8"
    by (simp add: spec_confidence_def spec_boosted_def spec_clamp_def spec_richness_def
        spec_username_matches_def rich_finding_def)
  ultimately show ?thesis by (simp add: scoreResults_with_def)
qed

lemma dedupe_single: "deduplicateResults cfg [r] = [r]"
  by (simp add: deduplicateResults_def Let_def)

lemma score_once:
  "score_result ''testuser'' ((bare_finding ''1'' 0.5)\<lparr>verified := True\<rparr>) =
     (bare_finding ''1'' 0.7)\<lparr>verified := True, confidenceLevel := Some Medium\<rparr>"
  by (subst score_result_eq)
     (simp add: spec_boosted_def spec_richness_def spec_clamp_def spec_username_matches_def
        spec_level_def bare_finding_def)

lemma score_twice:
  "score_result ''testuser'' ((bare_finding ''1'' 0.7)\<lparr>verified := True, confidenceLevel := Some Medium\<rparr>) =
     (bare_finding ''1'' 0.9)\<lparr>verified := True, confidenceLevel := Some High\<rparr>"
  by (subst score_result_eq)
     (simp add: spec_boosted_def spec_richness_def spec_clamp_def spec_username_matches_def
        spec_level_def bare_finding_def)

text \<open>
  Claim C8 as stated fails: a verified finding of confidence 0.5 has confidence 0.7 after
  one pass of deduplication and scoring, and 0.9 after a second pass.
\<close>

theorem fusion_twice_differs:
  "scoreResults (deduplicateResults AGGREGATOR_CONFIG
       (scoreResults (deduplicateResults AGGREGATOR_CONFIG
          [(bare_finding ''1'' 0.5)\<lparr>verified := True\<rparr>]) ''testuser''))
     ''testuser''
   \<noteq> scoreResults (deduplicateResults AGGREGATOR_CONFIG
          [(bare_finding ''1'' 0.5)\<lparr>verified := True\<rparr>]) ''testuser''"
  unfolding scoreResults_def dedupe_single list.map score_once score_twice
  by (simp add: bare_finding_def)








section \<open>The life cycle of a scan\<close>

lemma run_Nil: "run [] s = s"
  by (simp add: run_def)

lemma run_Cons: "run (e # evs) s = run evs (step e s)"
  by (simp add: run_def)

lemma run_append: "run (xs @ ys) s = run ys (run xs s)"
  by (simp add: run_def)

lemma adapter_failure_fields:
  "status (adapter_failure n m j) = status j"
  "results (adapter_failure n m j) = results j"
  "errors (adapter_failure n m j) = errors j @ [AdapterError n m]"
  "query (adapter_failure n m j) = query j"
  "options (adapter_failure n m j) = options j"
  "endTime (adapter_failure n m j) = endTime j"
  by (simp_all add: adapter_failure_def Let_def)

lemma settle_raised:
  assumes "scans s scanId = Some j" "tasks s scanId = Some t" "n \<in> set (pending t)"
  shows "scans (step (AdapterSettled scanId n (Raised m)) s) scanId = Some (adapter_failure n m j)"
    and "tasks (step (AdapterSettled scanId n (Raised m)) s) scanId
           = Some (t\<lparr>pending := remove1 n (pending t)\<rparr>)"
    and "config (step (AdapterSettled scanId n (Raised m)) s) = config s"
  using assms by (simp_all add: adapter_settled_def)

lemma failures_run:
  assumes "scans s scanId = Some j" "tasks s scanId = Some t"
    and "mset (map fst fails) \<subseteq># mset (pending t)"
  shows "\<exists>j' t'. scans (run (map (\<lambda>(n, m). AdapterSettled scanId n (Raised m)) fails) s) scanId = Some j'
           \<and> tasks (run (map (\<lambda>(n, m). AdapterSettled scanId n (Raised m)) fails) s) scanId = Some t'
           \<and> config (run (map (\<lambda>(n, m). AdapterSettled scanId n (Raised m)) fails) s) = config s
           \<and> status j' = status j \<and> results j' = results j
           \<and> errors j' = errors j @ map (\<lambda>(n, m). AdapterError n m) fails
           \<and> query j' = query j \<and> options j' = options j \<and> endTime j' = endTime j
           \<and> awaiting t' = awaiting t
           \<and> mset (pending t') = mset (pending t) - mset (map fst fails)"
  using assms
proof (induction fails arbitrary: s j t)
  case Nil
  then show ?case by (simp add: run_Nil)
next
  case (Cons f fails)
  obtain n m where f: "f = (n, m)" by (cases f)
  from Cons.prems(3) f have n: "n \<in> set (pending t)"
    by (metis fst_conv list.set_intros(1) list.simps(9) mset_subset_eqD set_mset_mset)
  let ?s = "step (AdapterSettled scanId n (Raised m)) s"
  note st = settle_raised[OF Cons.prems(1,2) n, of m]
  have sub: "mset (map fst fails) \<subseteq># mset (pending (t\<lparr>pending := remove1 n (pending t)\<rparr>))"
    using Cons.prems(3) f n
    by (simp add: insert_subset_eq_iff)
  from Cons.IH[OF st(1) st(2) sub] obtain j' t' where
    r: "scans (run (map (\<lambda>(n, m). AdapterSettled scanId n (Raised m)) fails) ?s) scanId = Some j'"
       "tasks (run (map (\<lambda>(n, m). AdapterSettled scanId n (Raised m)) fails) ?s) scanId = Some t'"
       "config (run (map (\<lambda>(n, m). AdapterSettled scanId n (Raised m)) fails) ?s) = config ?s"
       "status j' = status (adapter_failure n m j)" "results j' = results (adapter_failure n m j)"
       "errors j' = errors (adapter_failure n m j) @ map (\<lambda>(n, m). AdapterError n m) fails"
       "query j' = query (adapter_failure n m j)" "options j' = options (adapter_failure n m j)"
       "endTime j' = endTime (adapter_failure n m j)"
       "awaiting t' = awaiting (t\<lparr>pending := remove1 n (pending t)\<rparr>)"
       "mset (pending t') = mset (pending (t\<lparr>pending := remove1 n (pending t)\<rparr>)) - mset (map fst fails)"
    by blast
  have run: "run (map (\<lambda>(n, m). AdapterSettled scanId n (Raised m)) (f # fails)) s
           = run (map (\<lambda>(n, m). AdapterSettled scanId n (Raised m)) fails) ?s"
    by (simp add: f run_Cons)
  show ?case
    unfolding run using r st(3) n
    by (simp add: adapter_failure_fields f)
qed

lemma new_SearchAggregator_eq:
  "new_SearchAggregator cfg =
     \<lparr>config = cfg, adapters = default_adapters, scans = Map.empty, cache = Map.empty,
      tasks = Map.empty, calls = []\<rparr>"
  by (simp add: new_SearchAggregator_def registerDefaultAdapters_def default_adapters_def
      registerAdapter_def)

lemmas scan_eval = run_def startScan_def new_scan_def runScan_dispatch_def select_adapters_def
  adapter_settled_def adapter_success_def adapter_failure_def runScan_complete_def
  runScan_timeout_def new_SearchAggregator_eq default_adapters_def Let_def
  progress_percent_def AGGREGATOR_CONFIG_def

lemma startScan_dispatched:
  assumes "scans (startScan scanId now q opts s) scanId = Some j" "\<not> fromCache j"
  shows "j = (new_scan scanId now q opts s)
               \<lparr>stats := (stats (new_scan scanId now q opts s))
                  \<lparr>totalSources := length (select_adapters s opts)\<rparr>\<rparr>"
    and "tasks (startScan scanId now q opts s) scanId
           = Some \<lparr>pending = map name (select_adapters s opts), awaiting = True\<rparr>"
    and "config (startScan scanId now q opts s) = config s"
    and "calls (startScan scanId now q opts s)
           = calls s @ map (\<lambda>a. (scanId, name a)) (select_adapters s opts)"
  using assms
  by (auto simp add: startScan_def runScan_dispatch_def select_adapters_def Let_def
      split: option.splits if_splits)

lemma complete_empty:
  assumes "scans s scanId = Some j" "tasks s scanId = Some t" "awaiting t" "pending t = []"
    "results j = []"
  shows "scans (step (AllSettled scanId now') s) scanId
          = Some (j\<lparr>results := [], stats := (stats j)\<lparr>uniqueResults := 0\<rparr>, status := Completed,
                    endTime := Some now', progress := 100\<rparr>)"
  using assms
  by (simp add: runScan_complete_def Let_def deduplicateResults_def scoreResults_def
      sort_by_confidence_def)

text \<open>
  Every adapter fails before the total timer fires. A scan is started with a fresh
  identifier and is not served from the cache; every selected adapter raises an error,
  once each and in any order, and then \<^verbatim>\<open>runScan\<close> resumes, no timer having fired in
  between. The scan ends completed, with no result, with one entry in its error list for
  each adapter in the order of the failures (so a non-empty list when an adapter is
  selected), at 100 percent and with its end time set; and its status is \<^term>\<open>Error\<close>
  at no moment of the run.
\<close>

theorem all_adapters_fail:
  assumes fresh: "scans s scanId = None"
    and s1: "s1 = step (StartScan scanId now q opts) s"
    and miss: "\<exists>j. scans s1 scanId = Some j \<and> \<not> fromCache j"
    and fails: "mset (map fst fails) = mset (map name (select_adapters s opts))"
    and evs: "evs = map (\<lambda>(n, m). AdapterSettled scanId n (Raised m)) fails @ [AllSettled scanId now']"
  shows "(\<exists>j. scans (run evs s1) scanId = Some j \<and> status j = Completed \<and> results j = [] \<and>
            errors j = map (\<lambda>(n, m). AdapterError n m) fails \<and>
            length (errors j) = length (select_adapters s opts) \<and>
            (select_adapters s opts \<noteq> [] \<longrightarrow> errors j \<noteq> []) \<and>
            progress j = 100 \<and> endTime j = Some now') \<and>
         (\<forall>k j. scans (run (take k evs) s1) scanId = Some j \<longrightarrow> status j \<noteq> Error)"
proof -
  let ?ev = "\<lambda>fs. map (\<lambda>(n, m). AdapterSettled scanId n (Raised m)) fs"
  from s1 fresh have s1': "s1 = startScan scanId now q opts s" by simp
  from miss obtain j0 where j0: "scans s1 scanId = Some j0" "\<not> fromCache j0" by blast
  note d = startScan_dispatched[OF j0[unfolded s1']]
  let ?t0 = "\<lparr>pending = map name (select_adapters s opts), awaiting = True\<rparr>"
  have t0: "tasks s1 scanId = Some ?t0" using d(2) s1' by simp
  have j0f: "status j0 = Running" "results j0 = []" "errors j0 = []"
    using d(1) by (simp_all add: new_scan_def)
  have part: "\<exists>j' t'. scans (run (?ev fs) s1) scanId = Some j' \<and>
                tasks (run (?ev fs) s1) scanId = Some t' \<and>
                status j' = Running \<and> results j' = [] \<and>
                errors j' = map (\<lambda>(n, m). AdapterError n m) fs \<and> awaiting t' \<and>
                mset (pending t') = mset (map name (select_adapters s opts)) - mset (map fst fs)"
    if "mset (map fst fs) \<subseteq># mset (map name (select_adapters s opts))" for fs
    using failures_run[OF j0(1) t0, of fs] that j0f by auto
  from part[of fails] fails obtain j' t' where
    e: "scans (run (?ev fails) s1) scanId = Some j'" "tasks (run (?ev fails) s1) scanId = Some t'"
       "status j' = Running" "results j' = []"
       "errors j' = map (\<lambda>(n, m). AdapterError n m) fails" "awaiting t'" "pending t' = []"
    by auto
  have fin: "scans (run evs s1) scanId
      = Some (j'\<lparr>results := [], stats := (stats j')\<lparr>uniqueResults := 0\<rparr>, status := Completed,
                 endTime := Some now', progress := 100\<rparr>)"
    unfolding evs run_append run_Cons run_Nil
    by (rule complete_empty[OF e(1,2,6,7,4)])
  have len: "length fails = length (select_adapters s opts)"
    using fails by (metis length_map size_mset)
  have A: "\<exists>j. scans (run evs s1) scanId = Some j \<and> status j = Completed \<and> results j = [] \<and>
            errors j = map (\<lambda>(n, m). AdapterError n m) fails \<and>
            length (errors j) = length (select_adapters s opts) \<and>
            (select_adapters s opts \<noteq> [] \<longrightarrow> errors j \<noteq> []) \<and>
            progress j = 100 \<and> endTime j = Some now'"
    using fin e(5) len by auto
  have B: "status j \<noteq> Error" if k: "scans (run (take k evs) s1) scanId = Some j" for k j
  proof (cases "k \<le> length fails")
    case True
    then have tk: "take k evs = ?ev (take k fails)" by (simp add: evs take_map)
    have "mset (map fst (take k fails)) \<subseteq># mset (map name (select_adapters s opts))"
      unfolding fails[symmetric]
      by (metis append_take_drop_id map_append mset_append mset_subset_eq_add_left)
    from part[OF this] k show ?thesis unfolding tk by auto
  next
    case False
    then have "take k evs = evs" by (simp add: evs)
    with k fin have "j = j'\<lparr>results := [], stats := (stats j')\<lparr>uniqueResults := 0\<rparr>,
                 status := Completed, endTime := Some now', progress := 100\<rparr>" by simp
    then have "status j = Completed" by simp
    then show ?thesis by simp
  qed
  from A B show ?thesis by blast
qed

theorem all_adapters_fail_witness:
  "scans (new_SearchAggregator AGGREGATOR_CONFIG) ''scan-1'' = None \<and>
   (\<exists>j. scans (step (StartScan ''scan-1'' 0 ''testuser'' \<lparr>opt_adapters = Some [''github'', ''reddit'']\<rparr>)
              (new_SearchAggregator AGGREGATOR_CONFIG)) ''scan-1'' = Some j \<and> \<not> fromCache j) \<and>
   mset (map fst [(''reddit'', ''Network error''), (''github'', ''Forbidden'')]) =
   mset (map name (select_adapters (new_SearchAggregator AGGREGATOR_CONFIG)
                     \<lparr>opt_adapters = Some [''github'', ''reddit'']\<rparr>)) \<and>
   (\<exists>j. scans (run [AdapterSettled ''scan-1'' ''reddit'' (Raised ''Network error''),
                    AdapterSettled ''scan-1'' ''github'' (Raised ''Forbidden''),
                    AllSettled ''scan-1'' 700]
               (step (StartScan ''scan-1'' 0 ''testuser'' \<lparr>opt_adapters = Some [''github'', ''reddit'']\<rparr>)
                  (new_SearchAggregator AGGREGATOR_CONFIG))) ''scan-1'' = Some j \<and>
        status j = Completed \<and> results j = [] \<and>
        errors j = [AdapterError ''reddit'' ''Network error'', AdapterError ''github'' ''Forbidden''] \<and>
        errors j \<noteq> [] \<and> progress j = 100 \<and> endTime j = Some 700) \<and>
   (\<exists>j. scans (run (take 1 [AdapterSettled ''scan-1'' ''reddit'' (Raised ''Network error''),
                    AdapterSettled ''scan-1'' ''github'' (Raised ''Forbidden''),
                    AllSettled ''scan-1'' 700])
               (step (StartScan ''scan-1'' 0 ''testuser'' \<lparr>opt_adapters = Some [''github'', ''reddit'']\<rparr>)
                  (new_SearchAggregator AGGREGATOR_CONFIG))) ''scan-1'' = Some j \<and>
        errors j = [AdapterError ''reddit'' ''Network error''] \<and> status j \<noteq> Error)"
proof -
  let ?s = "new_SearchAggregator AGGREGATOR_CONFIG"
  let ?opts = "\<lparr>opt_adapters = Some [''github'', ''reddit'']\<rparr>"
  let ?s1 = "step (StartScan ''scan-1'' 0 ''testuser'' ?opts) ?s"
  let ?fails = "[(''reddit'', ''Network error''), (''github'', ''Forbidden'')]"
  let ?evs = "[AdapterSettled ''scan-1'' ''reddit'' (Raised ''Network error''),
               AdapterSettled ''scan-1'' ''github'' (Raised ''Forbidden''),
               AllSettled ''scan-1'' 700]"
  have h1: "scans ?s ''scan-1'' = None" by (simp add: new_SearchAggregator_eq)
  have h3: "\<exists>j. scans ?s1 ''scan-1'' = Some j \<and> \<not> fromCache j" by (simp add: scan_eval)
  have h4: "mset (map fst ?fails) = mset (map name (select_adapters ?s ?opts))"
    by (simp add: scan_eval)
  have h5: "?evs = map (\<lambda>(n, m). AdapterSettled ''scan-1'' n (Raised m)) ?fails @ [AllSettled ''scan-1'' 700]"
    by simp
  note inst = all_adapters_fail[OF h1 refl h3 h4 h5]
  have ne: "select_adapters ?s ?opts \<noteq> []" by (simp add: scan_eval)
  from inst[THEN conjunct1] obtain j where j: "scans (run ?evs ?s1) ''scan-1'' = Some j"
      "status j = Completed" "results j = []"
      "errors j = map (\<lambda>(n, m). AdapterError n m) ?fails"
      "select_adapters ?s ?opts \<noteq> [] \<longrightarrow> errors j \<noteq> []"
      "progress j = 100" "endTime j = Some 700"
    by (elim exE conjE)
  from j(5) ne have "errors j \<noteq> []" by (rule mp)
  with j have final: "\<exists>j. scans (run ?evs ?s1) ''scan-1'' = Some j \<and> status j = Completed \<and>
      results j = [] \<and>
      errors j = [AdapterError ''reddit'' ''Network error'', AdapterError ''github'' ''Forbidden''] \<and>
      errors j \<noteq> [] \<and> progress j = 100 \<and> endTime j = Some 700"
    by (intro exI[of _ j]) simp
  have "map_option errors (scans (run (take 1 ?evs) ?s1) ''scan-1'')
          = Some [AdapterError ''reddit'' ''Network error'']"
    by (simp add: scan_eval)
  then obtain j1 where j1: "scans (run (take 1 ?evs) ?s1) ''scan-1'' = Some j1"
      "errors j1 = [AdapterError ''reddit'' ''Network error'']"
    by auto
  from inst[THEN conjunct2, rule_format, OF j1(1)] have "status j1 \<noteq> Error" .
  with j1 have early: "\<exists>j. scans (run (take 1 ?evs) ?s1) ''scan-1'' = Some j \<and>
      errors j = [AdapterError ''reddit'' ''Network error''] \<and> status j \<noteq> Error"
    by (intro exI[of _ j1]) simp
  from h1 h3 h4 final early show ?thesis by (intro conjI)
qed

text \<open>
  Claim C2 fails on the code when the total timer fires before the adapters have failed.
  With a total timeout of one second and two adapters that raise after it, the timer
  rejects, \<^verbatim>\<open>runScan\<close> is abandoned and the handler of \<^verbatim>\<open>startScan\<close> sets the status
  \<^verbatim>\<open>error\<close>. Both adapters then fail and are recorded, and the scan stays in error,
  with no end time: it is never completed.
\<close>

theorem all_fail_after_total_timeout:
  "map_option (\<lambda>j. (status j, results j, errors j, progress j, endTime j))
     (scans (run [StartScan ''scan-1'' 0 ''testuser'' \<lparr>opt_adapters = Some [''github'', ''reddit'']\<rparr>,
                  TotalTimeout ''scan-1'' 1000,
                  AdapterSettled ''scan-1'' ''reddit'' (Raised ''Network error''),
                  AdapterSettled ''scan-1'' ''github'' (Raised ''Forbidden''),
                  AllSettled ''scan-1'' 2000]
               (new_SearchAggregator (AGGREGATOR_CONFIG\<lparr>totalTimeout := 1000\<rparr>))) ''scan-1'')
   = Some (Error, [],
           [ScanError ''Timeout'', AdapterError ''reddit'' ''Network error'',
            AdapterError ''github'' ''Forbidden''], 100, None)"
  by (simp add: scan_eval)

lemma descending_sort: "descending (sort_by_confidence rs)"
proof -
  have "sorted (map (\<lambda>r. - confidence r) (sort_key (\<lambda>r. - confidence r) rs))"
    by (rule sorted_sort_key)
  then show ?thesis
    by (simp add: descending_def sort_by_confidence_def sorted_map)
qed

lemma stable_sort:
  "filter (\<lambda>r. confidence r = c) (sort_by_confidence rs) = filter (\<lambda>r. confidence r = c) rs"
proof -
  have "filter (\<lambda>r. - confidence r = - c) (sort_key (\<lambda>r. - confidence r) rs)
        = filter (\<lambda>r. - confidence r = - c) rs"
    by (rule sort_key_stable)
  then show ?thesis by (simp add: sort_by_confidence_def)
qed

lemma adapter_callback_status: "status (adapter_callback n out j) = status j"
  by (cases out) (simp_all add: adapter_success_def adapter_failure_def Let_def)

lemma inv_new: "aggregator_inv (new_SearchAggregator cfg)"
  by (simp add: aggregator_inv_def new_SearchAggregator_eq)

lemma inv_register: "aggregator_inv s \<Longrightarrow> aggregator_inv (registerAdapter a s)"
  by (auto simp add: aggregator_inv_def registerAdapter_def)

lemma inv_start:
  assumes "aggregator_inv s" "scans s scanId = None"
  shows "aggregator_inv (startScan scanId now q opts s)"
proof -
  from assms have t: "tasks s scanId = None" by (simp add: aggregator_inv_def)
  show ?thesis
  proof (cases "\<exists>c. (if enableCache (config s) then cache s (getCacheKey q opts) else None) = Some c
                  \<and> now - timestamp c < cacheTTL (config s) * 1000")
    case True
    then obtain c where c: "(if enableCache (config s) then cache s (getCacheKey q opts) else None) = Some c"
      "now - timestamp c < cacheTTL (config s) * 1000" by blast
    then have cc: "cache s (getCacheKey q opts) = Some c" by (simp split: if_splits)
    with assms(1) have d: "descending (cached_results c)" by (simp add: aggregator_inv_def)
    have eq: "startScan scanId now q opts s =
        s\<lparr>scans := (scans s)(scanId \<mapsto> (new_scan scanId now q opts s)
             \<lparr>results := cached_results c, status := Completed, endTime := Some now, fromCache := True\<rparr>)\<rparr>"
      using c by (simp add: startScan_def Let_def)
    show ?thesis unfolding eq using assms(1) d t
      by (auto simp add: aggregator_inv_def)
  next
    case False
    then have eq: "startScan scanId now q opts s =
        runScan_dispatch scanId opts (s\<lparr>scans := (scans s)(scanId \<mapsto> new_scan scanId now q opts s)\<rparr>)"
      by (auto simp add: startScan_def Let_def split: option.splits)
    show ?thesis unfolding eq using assms(1)
      by (auto simp add: aggregator_inv_def runScan_dispatch_def Let_def new_scan_def)
  qed
qed

lemma inv_settled:
  assumes "aggregator_inv s"
  shows "aggregator_inv (adapter_settled scanId n out s)"
proof (cases "\<exists>j t. scans s scanId = Some j \<and> tasks s scanId = Some t \<and> n \<in> set (pending t)")
  case True
  then obtain j t where jt: "scans s scanId = Some j" "tasks s scanId = Some t" "n \<in> set (pending t)"
    by blast
  then have "pending t \<noteq> []" by auto
  with assms jt have nc: "status j \<noteq> Completed" by (auto simp add: aggregator_inv_def)
  have eq: "adapter_settled scanId n out s =
      s\<lparr>scans := (scans s)(scanId \<mapsto> adapter_callback n out j),
        tasks := (tasks s)(scanId \<mapsto> t\<lparr>pending := remove1 n (pending t)\<rparr>)\<rparr>"
    using jt by (simp add: adapter_settled_def)
  show ?thesis unfolding eq using assms nc
    by (auto simp add: aggregator_inv_def adapter_callback_status)
next
  case False
  then have "adapter_settled scanId n out s = s"
    by (auto simp add: adapter_settled_def split: option.splits)
  with assms show ?thesis by simp
qed

lemma inv_complete:
  assumes "aggregator_inv s"
  shows "aggregator_inv (runScan_complete scanId now s)"
proof (cases "\<exists>j t. scans s scanId = Some j \<and> tasks s scanId = Some t \<and> awaiting t \<and> pending t = []")
  case True
  then obtain j t where jt: "scans s scanId = Some j" "tasks s scanId = Some t" "awaiting t" "pending t = []"
    by blast
  show ?thesis using assms jt
    by (auto simp add: aggregator_inv_def runScan_complete_def Let_def descending_sort)
next
  case False
  then have "runScan_complete scanId now s = s"
    by (auto simp add: runScan_complete_def split: option.splits)
  with assms show ?thesis by simp
qed

lemma inv_timeout:
  assumes "aggregator_inv s"
  shows "aggregator_inv (runScan_timeout scanId now s)"
  using assms
  by (auto simp add: aggregator_inv_def runScan_timeout_def split: option.splits)

lemma inv_step: "aggregator_inv s \<Longrightarrow> aggregator_inv (step e s)"
  by (cases e) (simp_all add: inv_register inv_start inv_settled inv_complete inv_timeout)

lemma inv_run: "aggregator_inv s \<Longrightarrow> aggregator_inv (run evs s)"
  by (induction evs arbitrary: s) (simp_all add: run_Nil run_Cons inv_step)

lemma select_adapters_scans [simp]:
  "select_adapters (s\<lparr>scans := x\<rparr>) opts = select_adapters s opts"
  by (simp add: select_adapters_def split: option.splits)

lemma complete_step:
  assumes "scans s i = Some j" "tasks s i = Some t" "awaiting t" "pending t = []"
  shows "scans (step (AllSettled i now) s) i =
           Some (j\<lparr>results := sort_by_confidence
                       (scoreResults (deduplicateResults (config s) (results j)) (query j)),
                    stats := (stats j)\<lparr>uniqueResults :=
                       length (scoreResults (deduplicateResults (config s) (results j)) (query j))\<rparr>,
                    status := Completed, endTime := Some now, progress := 100\<rparr>)"
    and "enableCache (config s) \<Longrightarrow>
         cache (step (AllSettled i now) s) (getCacheKey (query j) (options j)) =
           Some \<lparr>cached_results = sort_by_confidence
                    (scoreResults (deduplicateResults (config s) (results j)) (query j)),
                 timestamp = now\<rparr>"
    and "config (step (AllSettled i now) s) = config s"
  using assms by (simp_all add: runScan_complete_def Let_def)

lemma fuse3:
  "sort_by_confidence (scoreResults (deduplicateResults AGGREGATOR_CONFIG
      [bare_finding ''1'' 0.6, bare_finding ''2'' 0.9, bare_finding ''3'' 0.6]) ''testuser'')
   = [(bare_finding ''2'' 0.9)\<lparr>confidenceLevel := Some High\<rparr>,
      (bare_finding ''1'' 0.6)\<lparr>confidenceLevel := Some Medium\<rparr>,
      (bare_finding ''3'' 0.6)\<lparr>confidenceLevel := Some Medium\<rparr>]"
  by (simp add: scoreResults_def score_result_eq deduplicateResults_def dedupe_keys_def
        sort_by_confidence_def bare_finding_def spec_boosted_def spec_clamp_def spec_richness_def
        spec_username_matches_def spec_level_def AGGREGATOR_CONFIG_def Let_def)

lemma mid_state:
  "scans (run [StartScan ''scan-1'' 0 ''testuser'' \<lparr>opt_adapters = Some [''github'']\<rparr>,
               AdapterSettled ''scan-1'' ''github''
                 (Returned [bare_finding ''1'' 0.6, bare_finding ''2'' 0.9, bare_finding ''3'' 0.6])]
          (new_SearchAggregator AGGREGATOR_CONFIG)) ''scan-1''
     = Some \<lparr>scan_id = ''scan-1'', query = ''testuser'', options = \<lparr>opt_adapters = Some [''github'']\<rparr>,
             status = Running, startTime = 0, endTime = None, progress = 100,
             results = [bare_finding ''1'' 0.6, bare_finding ''2'' 0.9, bare_finding ''3'' 0.6],
             errors = [],
             stats = \<lparr>totalSources = 1, completedSources = 1, totalResults = 3, uniqueResults = 0\<rparr>,
             fromCache = False\<rparr>"
  "tasks (run [StartScan ''scan-1'' 0 ''testuser'' \<lparr>opt_adapters = Some [''github'']\<rparr>,
               AdapterSettled ''scan-1'' ''github''
                 (Returned [bare_finding ''1'' 0.6, bare_finding ''2'' 0.9, bare_finding ''3'' 0.6])]
          (new_SearchAggregator AGGREGATOR_CONFIG)) ''scan-1''
     = Some \<lparr>pending = [], awaiting = True\<rparr>"
  "config (run [StartScan ''scan-1'' 0 ''testuser'' \<lparr>opt_adapters = Some [''github'']\<rparr>,
               AdapterSettled ''scan-1'' ''github''
                 (Returned [bare_finding ''1'' 0.6, bare_finding ''2'' 0.9, bare_finding ''3'' 0.6])]
          (new_SearchAggregator AGGREGATOR_CONFIG)) = AGGREGATOR_CONFIG"
  "scans (run [StartScan ''scan-1'' 0 ''testuser'' \<lparr>opt_adapters = Some [''github'']\<rparr>,
               AdapterSettled ''scan-1'' ''github''
                 (Returned [bare_finding ''1'' 0.6, bare_finding ''2'' 0.9, bare_finding ''3'' 0.6])]
          (new_SearchAggregator AGGREGATOR_CONFIG)) ''scan-2'' = None"
  by (simp_all add: scan_eval)

text \<open>
  Claim C7. In every state the aggregator reaches from its construction, the results of
  every completed scan are in descending order of confidence. When \<^verbatim>\<open>runScan\<close> completes
  a scan, the findings of any one confidence stand in the result in the order they have in
  the fused list, which is the order of arrival: the sort is stable.
\<close>

theorem completed_results_sorted_stable:
  "(\<forall>i j. scans (run evs (new_SearchAggregator cfg)) i = Some j \<and> status j = Completed \<longrightarrow>
       descending (results j)) \<and>
   (\<forall>s i now j t. scans s i = Some j \<and> tasks s i = Some t \<and> awaiting t \<and> pending t = [] \<longrightarrow>
       (\<exists>j'. scans (step (AllSettled i now) s) i = Some j' \<and> status j' = Completed \<and>
          descending (results j') \<and>
          (\<forall>c. filter (\<lambda>r. confidence r = c) (results j') =
               filter (\<lambda>r. confidence r = c)
                 (scoreResults (deduplicateResults (config s) (results j)) (query j)))))"
proof -
  have "aggregator_inv (run evs (new_SearchAggregator cfg))"
    by (rule inv_run[OF inv_new])
  then have A: "\<forall>i j. scans (run evs (new_SearchAggregator cfg)) i = Some j \<and> status j = Completed \<longrightarrow>
       descending (results j)"
    unfolding aggregator_inv_def by blast
  have B: "\<exists>j'. scans (step (AllSettled i now) s) i = Some j' \<and> status j' = Completed \<and>
          descending (results j') \<and>
          (\<forall>c. filter (\<lambda>r. confidence r = c) (results j') =
               filter (\<lambda>r. confidence r = c)
                 (scoreResults (deduplicateResults (config s) (results j)) (query j)))"
    if "scans s i = Some j" "tasks s i = Some t" "awaiting t" "pending t = []" for s i now j t
    using complete_step(1)[OF that, of now] by (simp add: descending_sort stable_sort)
  from A B show ?thesis by blast
qed

theorem completed_results_sorted_stable_witness:
  "(\<exists>j. scans (run [StartScan ''scan-1'' 0 ''testuser'' \<lparr>opt_adapters = Some [''github'']\<rparr>,
                    AdapterSettled ''scan-1'' ''github''
                      (Returned [bare_finding ''1'' 0.6, bare_finding ''2'' 0.9, bare_finding ''3'' 0.6]),
                    AllSettled ''scan-1'' 700]
               (new_SearchAggregator AGGREGATOR_CONFIG)) ''scan-1'' = Some j \<and>
        status j = Completed \<and> descending (results j) \<and>
        map finding_id (results j) = [''2'', ''1'', ''3'']) \<and>
   (\<exists>j'. scans (step (AllSettled ''scan-1'' 700)
              (run [StartScan ''scan-1'' 0 ''testuser'' \<lparr>opt_adapters = Some [''github'']\<rparr>,
                    AdapterSettled ''scan-1'' ''github''
                      (Returned [bare_finding ''1'' 0.6, bare_finding ''2'' 0.9, bare_finding ''3'' 0.6])]
               (new_SearchAggregator AGGREGATOR_CONFIG))) ''scan-1'' = Some j' \<and>
        status j' = Completed \<and>
        map finding_id (filter (\<lambda>r. confidence r = 0.6) (results j')) = [''1'', ''3''])"
proof -
  let ?rs = "[bare_finding ''1'' 0.6, bare_finding ''2'' 0.9, bare_finding ''3'' 0.6]"
  let ?mid = "[StartScan ''scan-1'' 0 ''testuser'' \<lparr>opt_adapters = Some [''github'']\<rparr>,
               AdapterSettled ''scan-1'' ''github'' (Returned ?rs)]"
  let ?evs = "[StartScan ''scan-1'' 0 ''testuser'' \<lparr>opt_adapters = Some [''github'']\<rparr>,
               AdapterSettled ''scan-1'' ''github'' (Returned ?rs),
               AllSettled ''scan-1'' 700]"
  let ?s0 = "new_SearchAggregator AGGREGATOR_CONFIG"
  let ?J = "\<lparr>scan_id = ''scan-1'', query = ''testuser'', options = \<lparr>opt_adapters = Some [''github'']\<rparr>,
             status = Running, startTime = 0, endTime = None, progress = 100,
             results = ?rs, errors = [],
             stats = \<lparr>totalSources = 1, completedSources = 1, totalResults = 3, uniqueResults = 0\<rparr>,
             fromCache = False\<rparr>"
  have "map_option (\<lambda>j. (status j, results j)) (scans (run ?evs ?s0) ''scan-1'')
        = Some (Completed,
                sort_by_confidence (scoreResults (deduplicateResults AGGREGATOR_CONFIG ?rs) ''testuser''))"
    by (simp add: scan_eval)
  then obtain j where j: "scans (run ?evs ?s0) ''scan-1'' = Some j" "status j = Completed"
      "results j = sort_by_confidence (scoreResults (deduplicateResults AGGREGATOR_CONFIG ?rs) ''testuser'')"
    by auto
  from j(3) have ids: "map finding_id (results j) = [''2'', ''1'', ''3'']"
    unfolding fuse3 by (simp add: bare_finding_def)
  have d: "descending (results j)"
    by (rule completed_results_sorted_stable[of ?evs AGGREGATOR_CONFIG, THEN conjunct1,
          rule_format, OF conjI, OF j(1) j(2)])
  have first: "\<exists>j. scans (run ?evs ?s0) ''scan-1'' = Some j \<and> status j = Completed \<and>
      descending (results j) \<and> map finding_id (results j) = [''2'', ''1'', ''3'']"
    using j(1,2) ids d by (intro exI[of _ j]) simp
  have "awaiting \<lparr>pending = [], awaiting = True\<rparr>" "pending \<lparr>pending = [], awaiting = True\<rparr> = []"
    by simp_all
  note hyp = conjI[OF mid_state(1) conjI[OF mid_state(2) conjI[OF this]]]
  have sel: "results ?J = ?rs" "query ?J = ''testuser''" by simp_all
  have "\<exists>j'. scans (step (AllSettled ''scan-1'' 700) (run ?mid ?s0)) ''scan-1'' = Some j' \<and>
      status j' = Completed \<and> descending (results j') \<and>
      (\<forall>c. filter (\<lambda>r. confidence r = c) (results j') =
           filter (\<lambda>r. confidence r = c)
             (scoreResults (deduplicateResults (config (run ?mid ?s0)) (results ?J)) (query ?J)))"
    by (rule completed_results_sorted_stable[of "[]" AGGREGATOR_CONFIG, THEN conjunct2,
          rule_format, OF hyp, of 700])
  then have second: "\<exists>j'. scans (step (AllSettled ''scan-1'' 700) (run ?mid ?s0)) ''scan-1'' = Some j' \<and>
        status j' = Completed \<and>
        map finding_id (filter (\<lambda>r. confidence r = 0.6) (results j')) = [''1'', ''3'']"
  proof (elim exE conjE)
    fix j'
    assume 1: "scans (step (AllSettled ''scan-1'' 700) (run ?mid ?s0)) ''scan-1'' = Some j'"
      and 2: "status j' = Completed"
      and 3: "\<forall>c. filter (\<lambda>r. confidence r = c) (results j') =
           filter (\<lambda>r. confidence r = c)
             (scoreResults (deduplicateResults (config (run ?mid ?s0)) (results ?J)) (query ?J))"
    from 3 have "filter (\<lambda>r. confidence r = 0.6) (results j') =
        filter (\<lambda>r. confidence r = 0.6)
             (scoreResults (deduplicateResults (config (run ?mid ?s0)) (results ?J)) (query ?J))"
      by (rule spec)
    also have "\<dots> = filter (\<lambda>r. confidence r = 0.6)
             (scoreResults (deduplicateResults AGGREGATOR_CONFIG ?rs) ''testuser'')"
      by (simp only: mid_state(3) sel)
    finally have "map finding_id (filter (\<lambda>r. confidence r = 0.6) (results j')) =
       map finding_id (filter (\<lambda>r. confidence r = 0.6)
             (scoreResults (deduplicateResults AGGREGATOR_CONFIG ?rs) ''testuser''))"
      by (rule arg_cong)
    also have "\<dots> = [''1'', ''3'']"
      by (simp add: scoreResults_def score_result_eq deduplicateResults_def dedupe_keys_def
        bare_finding_def spec_boosted_def spec_clamp_def spec_richness_def
        spec_username_matches_def spec_level_def AGGREGATOR_CONFIG_def Let_def)
    finally have 4: "map finding_id (filter (\<lambda>r. confidence r = 0.6) (results j')) = [''1'', ''3'']" .
    show ?thesis
      by (rule exI[of _ j'], intro conjI) (fact 1, fact 2, fact 4)
  qed
  from first second show ?thesis by (rule conjI)
qed

subsection \<open>The cache key determines the query and the options\<close>

lemma json_escape_examples:
  "json_string ''a'' = [CHR 0x22, CHR ''a'', CHR 0x22]"
  "json_escape (CHR 0x0B) = [CHR 0x5C, CHR ''u'', CHR ''0'', CHR ''0'', CHR ''0'', CHR ''b'']"
  "json_escape (CHR 0x1F) = [CHR 0x5C, CHR ''u'', CHR ''0'', CHR ''0'', CHR ''1'', CHR ''f'']"
  "json_escape (CHR 0x7F) = [CHR 0x7F]"
  by (simp_all add: json_string_def json_escape_def hex_digit_def)

lemma pat_run_simps [simp]:
  "pat_run s [] = s"
  "pat_run s (c # cs) = pat_run (pat_step s c) cs"
  "pat_run s (xs @ ys) = pat_run (pat_run s xs) ys"
  by (simp_all add: pat_run_def)

lemma pat_run_3 [simp]: "pat_run 3 cs = 3"
  by (induction cs) (simp_all add: pat_step_def)

lemma pat_found: "pat_run s (u @ CHR 0x7B # CHR 0x22 # CHR ''a'' # v) = 3"
proof -
  have "pat_step (pat_step (pat_step t (CHR 0x7B)) (CHR 0x22)) CHR ''a'' = 3" for t
    by (simp add: pat_step_def)
  then show ?thesis by simp
qed

lemma no_brace_run: "CHR 0x7B \<notin> set t \<Longrightarrow> pat_run 0 t = 0"
  by (induction t) (auto simp add: pat_step_def)

lemma hex_digit_mem: "n < 16 \<Longrightarrow> hex_digit n \<in> set ''0123456789abcdef''"
  unfolding hex_digit_def by (rule nth_mem) simp

lemma hex_digit_inj: "m < 16 \<Longrightarrow> n < 16 \<Longrightarrow> hex_digit m = hex_digit n \<Longrightarrow> m = n"
proof -
  have d: "distinct ''0123456789abcdef''" by simp
  show "m < 16 \<Longrightarrow> n < 16 \<Longrightarrow> hex_digit m = hex_digit n \<Longrightarrow> m = n"
    unfolding hex_digit_def using nth_eq_iff_index_eq[OF d, of m n] by simp
qed

lemma json_escape_shape:
  "(json_escape c = [c] \<and> c \<noteq> CHR 0x22 \<and> c \<noteq> CHR 0x5C) \<or>
   (\<exists>t. json_escape c = CHR 0x5C # t \<and> CHR 0x7B \<notin> set t)"
proof (cases "of_char c < (32::nat)")
  case True
  then have "(of_char c :: nat) div 16 < 16" "(of_char c :: nat) mod 16 < 16" by simp_all
  from hex_digit_mem[OF this(1)] hex_digit_mem[OF this(2)]
  have "hex_digit (of_char c div 16) \<noteq> CHR 0x7B" "hex_digit (of_char c mod 16) \<noteq> CHR 0x7B"
    by auto
  then show ?thesis by (simp add: json_escape_def)
next
  case False
  then show ?thesis by (auto simp add: json_escape_def)
qed

lemma json_escape_run: "s = 0 \<or> s = 1 \<Longrightarrow> pat_run s (json_escape c) = 0 \<or> pat_run s (json_escape c) = 1"
  using json_escape_shape[of c]
  by (auto simp add: pat_step_def no_brace_run)

lemma body_run:
  "s = 0 \<or> s = 1 \<Longrightarrow> pat_run s (concat (map json_escape a)) = 0 \<or> pat_run s (concat (map json_escape a)) = 1"
proof (induction a arbitrary: s)
  case Nil then show ?case by simp
next
  case (Cons c a)
  from json_escape_run[OF Cons.prems, of c] Cons.IH show ?case by simp
qed

lemma json_string_run: "pat_run 0 (json_string a) = 0 \<or> pat_run 0 (json_string a) = 2"
proof -
  have "pat_step 0 (CHR 0x22) = 0" by (simp add: pat_step_def)
  moreover have "pat_run 0 (concat (map json_escape a)) = 0 \<or> pat_run 0 (concat (map json_escape a)) = 1"
    by (rule body_run) simp
  ultimately show ?thesis
    by (auto simp add: json_string_def pat_step_def)
qed

lemma join_Cons: "join sep (x # xs) = x @ (if xs = [] then [] else sep @ join sep xs)"
  by (cases xs) simp_all

lemma join_run:
  "pat_run 0 (join '','' (map json_string ns)) = 0 \<or> pat_run 0 (join '','' (map json_string ns)) = 2"
proof (induction ns)
  case Nil then show ?case by simp
next
  case (Cons n ns)
  have c: "pat_step 0 CHR '','' = 0" "pat_step 2 CHR '','' = 0" by (simp_all add: pat_step_def)
  from json_string_run[of n] Cons.IH c show ?case
    by (auto simp add: join_Cons)
qed


lemma json_stringify_tail_run: "pat_run 0 (tl (JSON_stringify opts)) \<noteq> 3"
proof (cases "opt_adapters opts")
  case None
  then show ?thesis by (simp add: JSON_stringify_def pat_step_def)
next
  case (Some ns)
  have a: "pat_run 0 (json_string ''adapters'') = 0"
    by (simp add: json_string_def json_escape_def pat_step_def)
  have c: "pat_step 0 CHR '':'' = 0" "pat_step 0 CHR ''['' = 0" "pat_step 0 CHR '']'' = 0"
    "pat_step 2 CHR '']'' = 0" "pat_step 0 CHR ''}'' = 0"
    by (simp_all add: pat_step_def)
  from Some join_run[of ns] show ?thesis
    by (auto simp add: JSON_stringify_def a c)
qed

lemma json_stringify_no_suffix:
  assumes "JSON_stringify o2 = w @ CHR '':'' # JSON_stringify o1"
  shows False
proof (cases "opt_adapters o1")
  case None
  with assms have "rev (JSON_stringify o2) = rev (w @ '':{}'')"
    by (simp add: JSON_stringify_def)
  then show False
    by (cases "opt_adapters o2") (simp_all add: JSON_stringify_def)
next
  case (Some ns)
  then obtain v where v: "JSON_stringify o1 = CHR 0x7B # CHR 0x22 # CHR ''a'' # v"
    by (simp add: JSON_stringify_def json_string_def json_escape_def)
  have "w \<noteq> []"
  proof
    assume "w = []"
    with assms show False
      by (cases "opt_adapters o2") (simp_all add: JSON_stringify_def)
  qed
  then obtain c w' where w: "w = c # w'" by (cases w) auto
  from assms have "tl (JSON_stringify o2) = (w' @ [CHR '':'']) @ CHR 0x7B # CHR 0x22 # CHR ''a'' # v"
    unfolding v w by simp
  then have "pat_run 0 (tl (JSON_stringify o2)) = 3"
    by (simp only: pat_found)
  with json_stringify_tail_run[of o2] show False by simp
qed

lemma hex_pair_inj:
  assumes "of_char c < (32::nat)" "of_char d < (32::nat)"
    and "hex_digit (of_char c div 16) = hex_digit (of_char d div 16)"
    and "hex_digit (of_char c mod 16) = hex_digit (of_char d mod 16)"
  shows "c = d"
proof -
  have "(of_char c :: nat) div 16 = of_char d div 16"
    using assms(1,2) by (intro hex_digit_inj[OF _ _ assms(3)]) simp_all
  moreover have "(of_char c :: nat) mod 16 = of_char d mod 16"
    by (intro hex_digit_inj[OF _ _ assms(4)]) simp_all
  ultimately have "(of_char c :: nat) = of_char d"
    by (metis div_mult_mod_eq)
  then show ?thesis by simp
qed

lemma json_escape_kind:
  "(json_escape c = [c] \<and> c \<noteq> CHR 0x5C)
   \<or> (json_escape c = [CHR 0x5C, CHR 0x22] \<and> c = CHR 0x22)
   \<or> (json_escape c = [CHR 0x5C, CHR 0x5C] \<and> c = CHR 0x5C)
   \<or> (json_escape c = [CHR 0x5C, CHR ''b''] \<and> c = CHR 0x08)
   \<or> (json_escape c = [CHR 0x5C, CHR ''t''] \<and> c = CHR 0x09)
   \<or> (json_escape c = [CHR 0x5C, CHR ''n''] \<and> c = CHR 0x0A)
   \<or> (json_escape c = [CHR 0x5C, CHR ''f''] \<and> c = CHR 0x0C)
   \<or> (json_escape c = [CHR 0x5C, CHR ''r''] \<and> c = CHR 0x0D)
   \<or> (json_escape c = [CHR 0x5C, CHR ''u'', CHR ''0'', CHR ''0'',
                        hex_digit (of_char c div 16), hex_digit (of_char c mod 16)]
      \<and> of_char c < (32::nat))"
  by (simp add: json_escape_def)

lemma json_escape_inj:
  assumes "json_escape c @ x = json_escape d @ y"
  shows "c = d \<and> x = y"
  using json_escape_kind[of c] json_escape_kind[of d] assms
  by (elim disjE conjE) (auto intro: hex_pair_inj)

lemma json_escape_hd: "json_escape c @ x \<noteq> CHR 0x22 # y"
  using json_escape_shape[of c] by auto

lemma quoted_tail:
  "concat (map json_escape a) @ CHR 0x22 # x = concat (map json_escape b) @ CHR 0x22 # y
   \<Longrightarrow> a = b \<and> x = y"
proof (induction a arbitrary: b)
  case Nil
  then show ?case using json_escape_hd[of "hd b"] by (cases b) (auto dest: sym)
next
  case (Cons c a)
  show ?case
  proof (cases b)
    case Nil
    with Cons.prems show ?thesis using json_escape_hd[of c] by auto
  next
    case (Cons d b')
    with Cons.prems have "json_escape c @ (concat (map json_escape a) @ CHR 0x22 # x)
        = json_escape d @ (concat (map json_escape b') @ CHR 0x22 # y)" by simp
    from json_escape_inj[OF this] Cons.IH[of b'] Cons show ?thesis by simp
  qed
qed

lemma json_string_tail:
  "json_string a @ x = json_string b @ y \<Longrightarrow> a = b \<and> x = y"
  using quoted_tail[of a x b y] by (simp add: json_string_def)

lemma join_json_inj:
  "join '','' (map json_string as) @ CHR '']'' # x = join '','' (map json_string bs) @ CHR '']'' # y
   \<Longrightarrow> as = bs"
proof (induction as arbitrary: bs)
  case Nil
  then show ?case by (cases bs) (simp_all add: join_Cons json_string_def)
next
  case (Cons a as)
  show ?case
  proof (cases bs)
    case Nil
    with Cons.prems show ?thesis by (simp add: join_Cons json_string_def)
  next
    case (Cons b bs')
    let ?r = "\<lambda>ns z. (if ns = [] then [] else '','' @ join '','' (map json_string ns)) @ CHR '']'' # z"
    from Cons Cons.prems have "json_string a @ ?r as x = json_string b @ ?r bs' y"
      by (simp add: join_Cons)
    from json_string_tail[OF this] have ab: "a = b" and r: "?r as x = ?r bs' y" by simp_all
    have "as = bs'"
    proof (cases "as = []")
      case True
      with r show ?thesis by (cases "bs' = []") simp_all
    next
      case False
      with r have "bs' \<noteq> []" by (cases "bs' = []") simp_all
      with r False show ?thesis using Cons.IH[of bs'] by simp
    qed
    with ab Cons show ?thesis by simp
  qed
qed

lemma JSON_stringify_inj: "JSON_stringify o1 = JSON_stringify o2 \<Longrightarrow> o1 = o2"
proof -
  assume e: "JSON_stringify o1 = JSON_stringify o2"
  have "opt_adapters o1 = opt_adapters o2"
  proof (cases "opt_adapters o1")
    case None
    with e show ?thesis
      by (cases "opt_adapters o2") (simp_all add: JSON_stringify_def json_string_def)
  next
    case (Some as)
    show ?thesis
    proof (cases "opt_adapters o2")
      case None
      with e Some show ?thesis by (simp add: JSON_stringify_def json_string_def)
    next
      case (Some bs)
      with e \<open>opt_adapters o1 = Some as\<close>
      have "join '','' (map json_string as) @ CHR '']'' # ''}''
          = join '','' (map json_string bs) @ CHR '']'' # ''}''"
        by (simp add: JSON_stringify_def)
      from join_json_inj[OF this] Some \<open>opt_adapters o1 = Some as\<close> show ?thesis by simp
    qed
  qed
  then show "o1 = o2" by simp
qed

lemma getCacheKey_inj:
  assumes "getCacheKey q1 o1 = getCacheKey q2 o2"
  shows "q1 = q2 \<and> o1 = o2"
proof -
  from assms have "q1 @ (CHR '':'' # JSON_stringify o1) = q2 @ (CHR '':'' # JSON_stringify o2)"
    by (simp add: getCacheKey_def)
  then obtain us where
    "q1 = q2 @ us \<and> us @ (CHR '':'' # JSON_stringify o1) = CHR '':'' # JSON_stringify o2 \<or>
     q1 @ us = q2 \<and> CHR '':'' # JSON_stringify o1 = us @ (CHR '':'' # JSON_stringify o2)"
    unfolding append_eq_append_conv2 by blast
  then have "us = []"
  proof (elim disjE conjE)
    assume "us @ (CHR '':'' # JSON_stringify o1) = CHR '':'' # JSON_stringify o2"
    then show ?thesis
      using json_stringify_no_suffix[of o2 "tl us" o1] by (cases us) auto
  next
    assume "CHR '':'' # JSON_stringify o1 = us @ (CHR '':'' # JSON_stringify o2)"
    then show ?thesis
      using json_stringify_no_suffix[of o1 "tl us" o2] by (cases us) auto
  qed
  with \<open>_ \<or> _\<close> have "q1 = q2" "JSON_stringify o1 = JSON_stringify o2" by auto
  with JSON_stringify_inj show ?thesis by blast
qed

subsection \<open>The cache round trip\<close>

lemma step_keeps_entry:
  assumes "\<not> completes q opts e s"
  shows "cache (step e s) (getCacheKey q opts) = cache s (getCacheKey q opts)"
proof (cases e)
  case (RegisterAdapter a)
  then show ?thesis by (simp add: registerAdapter_def)
next
  case (StartScan i now q' opts')
  then show ?thesis
    by (simp add: startScan_def runScan_dispatch_def Let_def split: option.splits)
next
  case (AdapterSettled i n out)
  then show ?thesis by (simp add: adapter_settled_def split: option.splits)
next
  case (AllSettled i now)
  show ?thesis
  proof (cases "scans s i")
    case None
    with AllSettled show ?thesis by (simp add: runScan_complete_def)
  next
    case (Some j)
    note j = this
    show ?thesis
    proof (cases "tasks s i")
      case None
      with AllSettled j show ?thesis by (simp add: runScan_complete_def)
    next
      case (Some t)
      from assms AllSettled j Some
      have "\<not> (awaiting t \<and> pending t = [] \<and> query j = q \<and> options j = opts)" by simp
      then have "awaiting t \<and> pending t = [] \<longrightarrow>
          getCacheKey (query j) (options j) \<noteq> getCacheKey q opts"
        using getCacheKey_inj[of "query j" "options j" q opts] by blast
      with AllSettled j Some show ?thesis
        by (auto simp add: runScan_complete_def Let_def)
    qed
  qed
next
  case (TotalTimeout i now)
  then show ?thesis by (simp add: runScan_timeout_def split: option.splits)
qed

lemma step_config: "config (step e s) = config s"
proof (cases e)
  case (RegisterAdapter a)
  then show ?thesis by (simp add: registerAdapter_def)
next
  case (StartScan i now q' opts')
  then show ?thesis
    by (simp add: startScan_def runScan_dispatch_def Let_def split: option.splits)
next
  case (AdapterSettled i n out)
  then show ?thesis by (simp add: adapter_settled_def split: option.splits)
next
  case (AllSettled i now)
  then show ?thesis by (simp add: runScan_complete_def Let_def split: option.splits)
next
  case (TotalTimeout i now)
  then show ?thesis by (simp add: runScan_timeout_def split: option.splits)
qed

lemma run_keeps_entry:
  "undisturbed q opts evs s \<Longrightarrow>
   cache (run evs s) (getCacheKey q opts) = cache s (getCacheKey q opts)"
  by (induction evs arbitrary: s) (simp_all add: run_Nil run_Cons step_keeps_entry)

lemma run_config: "config (run evs s) = config s"
  by (induction evs arbitrary: s) (simp_all add: run_Nil run_Cons step_config)


lemma mid_state_later:
  "undisturbed ''testuser'' \<lparr>opt_adapters = Some [''github'']\<rparr>
     [StartScan ''scan-2'' 800 ''otheruser'' \<lparr>opt_adapters = Some [''github'']\<rparr>,
      AdapterSettled ''scan-2'' ''github'' (Returned [bare_finding ''4'' 0.5]),
      AllSettled ''scan-2'' 900]
     (step (AllSettled ''scan-1'' 700)
      (run [StartScan ''scan-1'' 0 ''testuser'' \<lparr>opt_adapters = Some [''github'']\<rparr>,
               AdapterSettled ''scan-1'' ''github''
                 (Returned [bare_finding ''1'' 0.6, bare_finding ''2'' 0.9, bare_finding ''3'' 0.6])]
          (new_SearchAggregator AGGREGATOR_CONFIG)))"
  "scans (run [StartScan ''scan-2'' 800 ''otheruser'' \<lparr>opt_adapters = Some [''github'']\<rparr>,
      AdapterSettled ''scan-2'' ''github'' (Returned [bare_finding ''4'' 0.5]),
      AllSettled ''scan-2'' 900]
     (step (AllSettled ''scan-1'' 700)
      (run [StartScan ''scan-1'' 0 ''testuser'' \<lparr>opt_adapters = Some [''github'']\<rparr>,
               AdapterSettled ''scan-1'' ''github''
                 (Returned [bare_finding ''1'' 0.6, bare_finding ''2'' 0.9, bare_finding ''3'' 0.6])]
          (new_SearchAggregator AGGREGATOR_CONFIG)))) ''scan-3'' = None"
  by (simp_all add: scan_eval)


text \<open>
  Claim C6, as amended. A scan for a query and options completes with the cache enabled.
  The aggregator then runs on, through any events of which none completes another scan for
  the same query and options, and \<^verbatim>\<open>startScan\<close> is called for that query and those
  options with a fresh identifier. When less than the time to live has passed since the
  completion, the new scan is completed at once with \<^verbatim>\<open>fromCache\<close> set and the result
  list of the first scan, and no adapter is called and no call is suspended; when the time
  to live or more has passed, the entry is a miss and the selected adapters are called.
\<close>

theorem cache_round_trip:
  assumes "enableCache (config s0)"
    and "scans s0 id1 = Some j1" and "tasks s0 id1 = Some t1" and "awaiting t1" and "pending t1 = []"
    and "s1 = step (AllSettled id1 finished) s0"
    and "s = run evs s1"
    and "undisturbed (query j1) (options j1) evs s1"
    and "scans s id2 = None"
    and "s2 = step (StartScan id2 now (query j1) (options j1)) s"
  shows "\<exists>r1. (\<exists>j. scans s1 id1 = Some j \<and> status j = Completed \<and> results j = r1) \<and>
     (now - finished < cacheTTL (config s0) * 1000 \<longrightarrow>
        (\<exists>j2. scans s2 id2 = Some j2 \<and> fromCache j2 \<and> status j2 = Completed \<and> results j2 = r1) \<and>
        calls s2 = calls s \<and> tasks s2 = tasks s) \<and>
     (cacheTTL (config s0) * 1000 \<le> now - finished \<longrightarrow>
        (\<exists>j2. scans s2 id2 = Some j2 \<and> \<not> fromCache j2 \<and> status j2 = Running) \<and>
        calls s2 = calls s @ map (\<lambda>a. (id2, name a)) (select_adapters s (options j1)))"
proof -
  let ?r1 = "sort_by_confidence (scoreResults (deduplicateResults (config s0) (results j1)) (query j1))"
  note c = complete_step[OF assms(2-5), of finished, folded assms(6)]
  have cfg: "config s = config s0"
    unfolding assms(7) run_config by (rule c(3))
  have entry: "cache s (getCacheKey (query j1) (options j1)) =
      Some \<lparr>cached_results = ?r1, timestamp = finished\<rparr>"
    unfolding assms(7) run_keeps_entry[OF assms(8)] by (rule c(2)[OF assms(1)])
  have 1: "\<exists>j. scans s1 id1 = Some j \<and> status j = Completed \<and> results j = ?r1"
    using c(1) by simp
  have s2: "s2 = startScan id2 now (query j1) (options j1) s"
    using assms(9,10) by simp
  have 2: "(\<exists>j2. scans s2 id2 = Some j2 \<and> fromCache j2 \<and> status j2 = Completed \<and> results j2 = ?r1) \<and>
        calls s2 = calls s \<and> tasks s2 = tasks s"
    if "now - finished < cacheTTL (config s0) * 1000"
    unfolding s2 using that entry assms(1) cfg
    by (simp add: startScan_def Let_def)
  have 3: "(\<exists>j2. scans s2 id2 = Some j2 \<and> \<not> fromCache j2 \<and> status j2 = Running) \<and>
        calls s2 = calls s @ map (\<lambda>a. (id2, name a)) (select_adapters s (options j1))"
    if "cacheTTL (config s0) * 1000 \<le> now - finished"
    unfolding s2 using that entry assms(1) cfg
    by (simp add: startScan_def Let_def runScan_dispatch_def new_scan_def)
  from 1 2 3 show ?thesis by blast
qed

theorem cache_round_trip_witness:
  "(\<exists>j1 j2. scans (step (AllSettled ''scan-1'' 700)
      (run [StartScan ''scan-1'' 0 ''testuser'' \<lparr>opt_adapters = Some [''github'']\<rparr>,
               AdapterSettled ''scan-1'' ''github''
                 (Returned [bare_finding ''1'' 0.6, bare_finding ''2'' 0.9, bare_finding ''3'' 0.6])]
          (new_SearchAggregator AGGREGATOR_CONFIG))) ''scan-1'' = Some j1 \<and>
     scans (step (StartScan ''scan-3'' 5000 ''testuser'' \<lparr>opt_adapters = Some [''github'']\<rparr>)
      (run [StartScan ''scan-2'' 800 ''otheruser'' \<lparr>opt_adapters = Some [''github'']\<rparr>,
            AdapterSettled ''scan-2'' ''github'' (Returned [bare_finding ''4'' 0.5]),
            AllSettled ''scan-2'' 900]
      (step (AllSettled ''scan-1'' 700)
      (run [StartScan ''scan-1'' 0 ''testuser'' \<lparr>opt_adapters = Some [''github'']\<rparr>,
               AdapterSettled ''scan-1'' ''github''
                 (Returned [bare_finding ''1'' 0.6, bare_finding ''2'' 0.9, bare_finding ''3'' 0.6])]
          (new_SearchAggregator AGGREGATOR_CONFIG))))) ''scan-3'' = Some j2 \<and>
     fromCache j2 \<and> status j2 = Completed \<and> results j2 = results j1) \<and>
   (\<exists>j3. scans (step (StartScan ''scan-3'' 3600700 ''testuser'' \<lparr>opt_adapters = Some [''github'']\<rparr>)
      (run [StartScan ''scan-2'' 800 ''otheruser'' \<lparr>opt_adapters = Some [''github'']\<rparr>,
            AdapterSettled ''scan-2'' ''github'' (Returned [bare_finding ''4'' 0.5]),
            AllSettled ''scan-2'' 900]
      (step (AllSettled ''scan-1'' 700)
      (run [StartScan ''scan-1'' 0 ''testuser'' \<lparr>opt_adapters = Some [''github'']\<rparr>,
               AdapterSettled ''scan-1'' ''github''
                 (Returned [bare_finding ''1'' 0.6, bare_finding ''2'' 0.9, bare_finding ''3'' 0.6])]
          (new_SearchAggregator AGGREGATOR_CONFIG))))) ''scan-3'' = Some j3 \<and>
     \<not> fromCache j3 \<and> status j3 = Running)"
proof -
  let ?rs = "[bare_finding ''1'' 0.6, bare_finding ''2'' 0.9, bare_finding ''3'' 0.6]"
  let ?opts = "\<lparr>opt_adapters = Some [''github'']\<rparr>"
  let ?s0 = "run [StartScan ''scan-1'' 0 ''testuser'' ?opts,
                  AdapterSettled ''scan-1'' ''github'' (Returned ?rs)]
               (new_SearchAggregator AGGREGATOR_CONFIG)"
  let ?s1 = "step (AllSettled ''scan-1'' 700) ?s0"
  let ?evs = "[StartScan ''scan-2'' 800 ''otheruser'' ?opts,
               AdapterSettled ''scan-2'' ''github'' (Returned [bare_finding ''4'' 0.5]),
               AllSettled ''scan-2'' 900]"
  let ?after = "run ?evs ?s1"
  let ?J = "\<lparr>scan_id = ''scan-1'', query = ''testuser'', options = ?opts,
             status = Running, startTime = 0, endTime = None, progress = 100,
             results = ?rs, errors = [],
             stats = \<lparr>totalSources = 1, completedSources = 1, totalResults = 3, uniqueResults = 0\<rparr>,
             fromCache = False\<rparr>"
  let ?T = "\<lparr>pending = [], awaiting = True\<rparr>"
  have h1: "enableCache (config ?s0)"
    unfolding mid_state(3) by (simp add: AGGREGATOR_CONFIG_def)
  have h4: "awaiting ?T" and h5: "pending ?T = []" by simp_all
  have sel: "query ?J = ''testuser''" "options ?J = ?opts" by simp_all
  have h8: "undisturbed (query ?J) (options ?J) ?evs ?s1"
    unfolding sel by (rule mid_state_later(1))
  have ttl: "cacheTTL (config ?s0) * 1000 = 3600000"
    unfolding mid_state(3) by (simp add: AGGREGATOR_CONFIG_def)
  note inst = cache_round_trip[OF h1 mid_state(1) mid_state(2) h4 h5 refl refl h8
      mid_state_later(2) refl, unfolded sel ttl]
  have hit: "\<exists>j1 j2. scans ?s1 ''scan-1'' = Some j1 \<and>
     scans (step (StartScan ''scan-3'' 5000 ''testuser'' ?opts) ?after) ''scan-3'' = Some j2 \<and>
     fromCache j2 \<and> status j2 = Completed \<and> results j2 = results j1"
    using inst[of 5000] by (elim exE conjE) auto
  have miss: "\<exists>j3. scans (step (StartScan ''scan-3'' 3600700 ''testuser'' ?opts) ?after) ''scan-3'' = Some j3 \<and>
     \<not> fromCache j3 \<and> status j3 = Running"
    using inst[of 3600700] by (elim exE conjE) auto
  from hit miss show ?thesis by (rule conjI)
qed

text \<open>
  Claim C6 as stated fails when another scan for the same query and options completes in
  between: the cache keeps the last write. Two scans for one query start before either
  has completed, so both call the adapter, which answers them differently. A third scan,
  less than the time to live after the first has completed, is served from the cache with
  the results of the second.
\<close>

theorem cache_last_write_wins:
  "map_option (\<lambda>j. (status j, fromCache j, results j))
     (scans (run [StartScan ''scan-1'' 0 ''testuser'' \<lparr>opt_adapters = Some [''github'']\<rparr>,
                  StartScan ''scan-2'' 100 ''testuser'' \<lparr>opt_adapters = Some [''github'']\<rparr>,
                  AdapterSettled ''scan-1'' ''github'' (Returned [bare_finding ''1'' 0.9]),
                  AllSettled ''scan-1'' 700,
                  AdapterSettled ''scan-2'' ''github'' (Returned [bare_finding ''2'' 0.6]),
                  AllSettled ''scan-2'' 900,
                  StartScan ''scan-3'' 5000 ''testuser'' \<lparr>opt_adapters = Some [''github'']\<rparr>]
               (new_SearchAggregator AGGREGATOR_CONFIG)) ''scan-1'')
   = Some (Completed, False, [(bare_finding ''1'' 0.9)\<lparr>confidenceLevel := Some High\<rparr>]) \<and>
   map_option (\<lambda>j. (status j, fromCache j, results j))
     (scans (run [StartScan ''scan-1'' 0 ''testuser'' \<lparr>opt_adapters = Some [''github'']\<rparr>,
                  StartScan ''scan-2'' 100 ''testuser'' \<lparr>opt_adapters = Some [''github'']\<rparr>,
                  AdapterSettled ''scan-1'' ''github'' (Returned [bare_finding ''1'' 0.9]),
                  AllSettled ''scan-1'' 700,
                  AdapterSettled ''scan-2'' ''github'' (Returned [bare_finding ''2'' 0.6]),
                  AllSettled ''scan-2'' 900,
                  StartScan ''scan-3'' 5000 ''testuser'' \<lparr>opt_adapters = Some [''github'']\<rparr>]
               (new_SearchAggregator AGGREGATOR_CONFIG)) ''scan-3'')
   = Some (Completed, True, [(bare_finding ''2'' 0.6)\<lparr>confidenceLevel := Some Medium\<rparr>])"
  by (simp add: scan_eval scoreResults_def score_result_eq deduplicateResults_def dedupe_keys_def
        sort_by_confidence_def bare_finding_def spec_boosted_def spec_clamp_def spec_richness_def
        spec_username_matches_def spec_level_def)


section \<open>What holds of every scan\<close>

text \<open>
  The progress of a scan never decreases, a completed scan is never changed again, and an
  end time, once set, stays. These hold along every run; the three theorems after them
  show what does not.
\<close>

lemma progress_percent_zero: "progress_percent 0 n = 0"
  by (simp add: progress_percent_def)

lemma progress_percent_mono: "a \<le> b \<Longrightarrow> progress_percent a n \<le> progress_percent b n"
  by (simp add: progress_percent_def div_le_mono)

lemma progress_percent_full: "progress_percent n n \<le> 100"
proof (cases "n = 0")
  case True
  then show ?thesis by (simp add: progress_percent_def)
next
  case False
  have "(200 * n + n) div (2 * n) \<le> (202 * n) div (2 * n)"
    by (rule div_le_mono) simp
  also have "\<dots> = 101" using False by simp
  finally have "(200 * n + n) div (2 * n) \<le> 101" .
  moreover have "(200 * n + n) div (2 * n) \<noteq> 101"
  proof
    assume "(200 * n + n) div (2 * n) = 101"
    then have "101 * (2 * n) \<le> 200 * n + n"
      by (metis div_times_less_eq_dividend mult.commute)
    with False show False by simp
  qed
  ultimately show ?thesis by (simp add: progress_percent_def)
qed

lemma adapter_callback_fields:
  "status (adapter_callback n out j) = status j"
  "endTime (adapter_callback n out j) = endTime j"
  "fromCache (adapter_callback n out j) = fromCache j"
  "completedSources (stats (adapter_callback n out j)) = Suc (completedSources (stats j))"
  "totalSources (stats (adapter_callback n out j)) = totalSources (stats j)"
  "progress (adapter_callback n out j) =
     progress_percent (Suc (completedSources (stats j))) (totalSources (stats j))"
  by (cases out; simp add: adapter_success_def adapter_failure_def Let_def)+

lemma life_lookup:
  "lifecycle_inv s \<Longrightarrow> scans s i = Some j \<Longrightarrow> scan_ok j (tasks s i)"
  "lifecycle_inv s \<Longrightarrow> scans s i = None \<Longrightarrow> tasks s i = None"
  by (simp_all add: lifecycle_inv_def)

lemma life_cong:
  "scans s' = scans s \<Longrightarrow> tasks s' = tasks s \<Longrightarrow> lifecycle_inv s' = lifecycle_inv s"
  by (simp add: lifecycle_inv_def)

lemma life_update:
  assumes "lifecycle_inv s" "scan_ok j' topt"
  shows "lifecycle_inv (s\<lparr>scans := (scans s)(i \<mapsto> j'), tasks := (tasks s)(i := topt)\<rparr>)"
  using assms by (simp add: lifecycle_inv_def)

lemma life_new: "lifecycle_inv (new_SearchAggregator cfg)"
  by (simp add: lifecycle_inv_def new_SearchAggregator_eq)

lemma life_register: "lifecycle_inv s \<Longrightarrow> lifecycle_inv (registerAdapter a s)"
  by (simp add: registerAdapter_def life_cong[of "s\<lparr>adapters := x\<rparr>" s for x])

lemma life_start:
  assumes "lifecycle_inv s" "scans s scanId = None"
  shows "lifecycle_inv (startScan scanId now q opts s)"
proof -
  from assms have t: "tasks s scanId = None" by (rule life_lookup(2))
  show ?thesis
  proof (cases "\<exists>c. (if enableCache (config s) then cache s (getCacheKey q opts) else None) = Some c
                  \<and> now - timestamp c < cacheTTL (config s) * 1000")
    case True
    then obtain c where c: "(if enableCache (config s) then cache s (getCacheKey q opts) else None) = Some c"
      "now - timestamp c < cacheTTL (config s) * 1000" by blast
    let ?j = "(new_scan scanId now q opts s)
             \<lparr>results := cached_results c, status := Completed, endTime := Some now, fromCache := True\<rparr>"
    have "startScan scanId now q opts s = s\<lparr>scans := (scans s)(scanId \<mapsto> ?j)\<rparr>"
      using c by (simp add: startScan_def Let_def)
    also have "\<dots> = s\<lparr>scans := (scans s)(scanId \<mapsto> ?j), tasks := (tasks s)(scanId := None)\<rparr>"
      using t by (simp add: fun_upd_idem)
    finally have eq: "startScan scanId now q opts s =
       s\<lparr>scans := (scans s)(scanId \<mapsto> ?j), tasks := (tasks s)(scanId := None)\<rparr>" .
    have "scan_ok ?j None" by (simp add: scan_ok_def)
    with assms(1) show ?thesis unfolding eq by (rule life_update)
  next
    case False
    let ?n = "length (select_adapters s opts)"
    let ?j = "(new_scan scanId now q opts s)\<lparr>stats := (stats (new_scan scanId now q opts s))
                 \<lparr>totalSources := ?n\<rparr>\<rparr>"
    let ?t = "\<lparr>pending = map name (select_adapters s opts), awaiting = True\<rparr>"
    from False have "startScan scanId now q opts s =
        runScan_dispatch scanId opts (s\<lparr>scans := (scans s)(scanId \<mapsto> new_scan scanId now q opts s)\<rparr>)"
      by (auto simp add: startScan_def Let_def split: option.splits)
    also have "\<dots> = (s\<lparr>scans := (scans s)(scanId \<mapsto> ?j), tasks := (tasks s)(scanId := Some ?t)\<rparr>)
        \<lparr>calls := calls s @ map (\<lambda>a. (scanId, name a)) (select_adapters s opts)\<rparr>"
      by (simp add: runScan_dispatch_def Let_def)
    finally have eq: "startScan scanId now q opts s =
        (s\<lparr>scans := (scans s)(scanId \<mapsto> ?j), tasks := (tasks s)(scanId := Some ?t)\<rparr>)
        \<lparr>calls := calls s @ map (\<lambda>a. (scanId, name a)) (select_adapters s opts)\<rparr>" .
    have "scan_ok ?j (Some ?t)"
      by (simp add: scan_ok_def new_scan_def progress_percent_zero)
    with assms(1) have "lifecycle_inv (s\<lparr>scans := (scans s)(scanId \<mapsto> ?j), tasks := (tasks s)(scanId := Some ?t)\<rparr>)"
      by (rule life_update)
    then show ?thesis unfolding eq
      by (simp add: life_cong[of "s'\<lparr>calls := x\<rparr>" s' for s' x])
  qed
qed

lemma life_settled:
  assumes "lifecycle_inv s"
  shows "lifecycle_inv (adapter_settled scanId n out s)"
proof (cases "\<exists>j t. scans s scanId = Some j \<and> tasks s scanId = Some t \<and> n \<in> set (pending t)")
  case True
  then obtain j t where jt: "scans s scanId = Some j" "tasks s scanId = Some t" "n \<in> set (pending t)"
    by blast
  then have ne: "pending t \<noteq> []" by auto
  from life_lookup(1)[OF assms jt(1)] have ok: "scan_ok j (Some t)" by (simp add: jt(2))
  have len: "Suc (length (remove1 n (pending t))) = length (pending t)"
    using jt(3) by (simp add: length_remove1) (metis Suc_pred length_pos_if_in_set)
  have eq: "adapter_settled scanId n out s =
      s\<lparr>scans := (scans s)(scanId \<mapsto> adapter_callback n out j),
        tasks := (tasks s)(scanId := Some (t\<lparr>pending := remove1 n (pending t)\<rparr>))\<rparr>"
    using jt by (simp add: adapter_settled_def)
  have "scan_ok (adapter_callback n out j) (Some (t\<lparr>pending := remove1 n (pending t)\<rparr>))"
    using ok ne len by (auto simp add: scan_ok_def adapter_callback_fields)
  with assms show ?thesis unfolding eq by (rule life_update)
next
  case False
  then have "adapter_settled scanId n out s = s"
    by (auto simp add: adapter_settled_def split: option.splits)
  with assms show ?thesis by simp
qed

lemma life_complete:
  assumes "lifecycle_inv s"
  shows "lifecycle_inv (runScan_complete scanId now s)"
proof (cases "\<exists>j t. scans s scanId = Some j \<and> tasks s scanId = Some t \<and> awaiting t \<and> pending t = []")
  case True
  then obtain j t where jt: "scans s scanId = Some j" "tasks s scanId = Some t" "awaiting t" "pending t = []"
    by blast
  let ?fused = "scoreResults (deduplicateResults (config s) (results j)) (query j)"
  let ?j = "j\<lparr>results := sort_by_confidence ?fused,
             stats := (stats j)\<lparr>uniqueResults := length ?fused\<rparr>,
             status := Completed, endTime := Some now, progress := 100\<rparr>"
  let ?s = "s\<lparr>scans := (scans s)(scanId \<mapsto> ?j), tasks := (tasks s)(scanId := Some (t\<lparr>awaiting := False\<rparr>))\<rparr>"
  have eq: "runScan_complete scanId now s =
     (if enableCache (config s)
      then ?s\<lparr>cache := (cache s)(getCacheKey (query j) (options j) \<mapsto>
                 \<lparr>cached_results = sort_by_confidence ?fused, timestamp = now\<rparr>)\<rparr>
      else ?s)"
    using jt by (simp add: runScan_complete_def Let_def)
  have "scan_ok ?j (Some (t\<lparr>awaiting := False\<rparr>))"
    using jt by (simp add: scan_ok_def)
  with assms have "lifecycle_inv ?s" by (rule life_update)
  then show ?thesis unfolding eq
    by (simp add: life_cong[of "s'\<lparr>cache := x\<rparr>" s' for s' x])
next
  case False
  then have "runScan_complete scanId now s = s"
    by (auto simp add: runScan_complete_def split: option.splits)
  with assms show ?thesis by simp
qed

lemma life_timeout:
  assumes "lifecycle_inv s"
  shows "lifecycle_inv (runScan_timeout scanId now s)"
proof (cases "\<exists>j t. scans s scanId = Some j \<and> tasks s scanId = Some t \<and> awaiting t \<and>
      pending t \<noteq> [] \<and> startTime j + totalTimeout (config s) \<le> now")
  case True
  then obtain j t where jt: "scans s scanId = Some j" "tasks s scanId = Some t" "awaiting t"
     "pending t \<noteq> []" "startTime j + totalTimeout (config s) \<le> now"
    by blast
  from life_lookup(1)[OF assms jt(1)] have ok: "scan_ok j (Some t)" by (simp add: jt(2))
  have eq: "runScan_timeout scanId now s =
     s\<lparr>scans := (scans s)(scanId \<mapsto> j\<lparr>status := Error, errors := errors j @ [ScanError ''Timeout'']\<rparr>),
       tasks := (tasks s)(scanId := Some (t\<lparr>awaiting := False\<rparr>))\<rparr>"
    using jt by (simp add: runScan_timeout_def)
  have "scan_ok (j\<lparr>status := Error, errors := errors j @ [ScanError ''Timeout'']\<rparr>)
          (Some (t\<lparr>awaiting := False\<rparr>))"
    using ok jt(3,4) by (auto simp add: scan_ok_def)
  with assms show ?thesis unfolding eq by (rule life_update)
next
  case False
  then have "runScan_timeout scanId now s = s"
    by (auto simp add: runScan_timeout_def split: option.splits)
  with assms show ?thesis by simp
qed

lemma life_step: "lifecycle_inv s \<Longrightarrow> lifecycle_inv (step e s)"
  by (cases e) (simp_all add: life_register life_start life_settled life_complete life_timeout)

lemma life_run: "lifecycle_inv s \<Longrightarrow> lifecycle_inv (run evs s)"
  by (induction evs arbitrary: s) (simp_all add: run_Nil run_Cons life_step)

lemma startScan_other:
  "i \<noteq> scanId \<Longrightarrow> scans (startScan scanId now q opts s) i = scans s i"
  by (simp add: startScan_def runScan_dispatch_def Let_def split: option.splits)

lemma settled_other:
  "i \<noteq> scanId \<Longrightarrow> scans (adapter_settled scanId n out s) i = scans s i"
  by (simp add: adapter_settled_def split: option.splits)

lemma complete_other:
  "i \<noteq> scanId \<Longrightarrow> scans (runScan_complete scanId now s) i = scans s i"
  by (simp add: runScan_complete_def Let_def split: option.splits)

lemma timeout_other:
  "i \<noteq> scanId \<Longrightarrow> scans (runScan_timeout scanId now s) i = scans s i"
  by (simp add: runScan_timeout_def split: option.splits)

lemma lifecycle_step:
  assumes inv: "lifecycle_inv s" and j: "scans s i = Some j"
  shows "\<exists>j'. scans (step e s) i = Some j' \<and> progress j \<le> progress j' \<and>
           (status j = Completed \<longrightarrow> j' = j) \<and>
           (endTime j \<noteq> None \<longrightarrow> endTime j' = endTime j)"
proof -
  note ok = life_lookup(1)[OF inv j]
  have same: ?thesis if "scans (step e s) i = scans s i"
    using that j by simp
  show ?thesis
  proof (cases e)
    case (RegisterAdapter a)
    then show ?thesis by (intro same) (simp add: registerAdapter_def)
  next
    case (StartScan scanId now q opts)
    show ?thesis
    proof (cases "scans s scanId = None")
      case True
      with j have "i \<noteq> scanId" by auto
      then show ?thesis using StartScan True by (intro same) (simp add: startScan_other)
    next
      case False
      then have "step e s = s" using StartScan by auto
      then show ?thesis by (intro same) simp
    qed
  next
    case (AdapterSettled scanId n out)
    show ?thesis
    proof (cases "i = scanId \<and> (\<exists>t. tasks s i = Some t \<and> n \<in> set (pending t))")
      case True
      then obtain t where t: "i = scanId" "tasks s i = Some t" "n \<in> set (pending t)" by blast
      then have ne: "pending t \<noteq> []" by auto
      have "scans (step e s) i = Some (adapter_callback n out j)"
        using AdapterSettled t j by (simp add: adapter_settled_def)
      moreover have "progress j \<le> progress (adapter_callback n out j)"
        using ok ne t(2) by (simp add: scan_ok_def adapter_callback_fields progress_percent_mono)
      moreover have "status j \<noteq> Completed" "endTime (adapter_callback n out j) = endTime j"
        using ok ne t(2) by (auto simp add: scan_ok_def adapter_callback_fields)
      ultimately show ?thesis by simp
    next
      case False
      show ?thesis
      proof (cases "i = scanId")
        case True
        with False j have "adapter_settled scanId n out s = s"
          by (auto simp add: adapter_settled_def split: option.splits)
        then show ?thesis using AdapterSettled by (intro same) simp
      next
        case False
        then show ?thesis using AdapterSettled by (intro same) (simp add: settled_other)
      qed
    qed
  next
    case (AllSettled scanId now)
    show ?thesis
    proof (cases "i = scanId \<and> (\<exists>t. tasks s i = Some t \<and> awaiting t \<and> pending t = [])")
      case True
      then obtain t where t: "i = scanId" "tasks s i = Some t" "awaiting t" "pending t = []" by blast
      from ok t have p: "progress j = progress_percent (totalSources (stats j)) (totalSources (stats j))"
        and nc: "status j \<noteq> Completed" "endTime j = None"
        by (auto simp add: scan_ok_def)
      have "\<exists>j'. scans (step e s) i = Some j' \<and> progress j' = 100"
        using AllSettled t j by (simp add: runScan_complete_def Let_def)
      then show ?thesis using p nc progress_percent_full[of "totalSources (stats j)"] by auto
    next
      case False
      show ?thesis
      proof (cases "i = scanId")
        case True
        with False j have "runScan_complete scanId now s = s"
          by (auto simp add: runScan_complete_def split: option.splits)
        then show ?thesis using AllSettled by (intro same) simp
      next
        case False
        then show ?thesis using AllSettled by (intro same) (simp add: complete_other)
      qed
    qed
  next
    case (TotalTimeout scanId now)
    show ?thesis
    proof (cases "i = scanId \<and> (\<exists>t. tasks s i = Some t \<and> awaiting t \<and> pending t \<noteq> [] \<and>
                    startTime j + totalTimeout (config s) \<le> now)")
      case True
      then obtain t where t: "i = scanId" "tasks s i = Some t" "awaiting t" "pending t \<noteq> []"
          "startTime j + totalTimeout (config s) \<le> now" by blast
      from ok t have nc: "status j \<noteq> Completed"
        by (auto simp add: scan_ok_def)
      have "scans (step e s) i = Some (j\<lparr>status := Error, errors := errors j @ [ScanError ''Timeout'']\<rparr>)"
        using TotalTimeout t j by (simp add: runScan_timeout_def)
      then show ?thesis using nc by simp
    next
      case False
      show ?thesis
      proof (cases "i = scanId")
        case True
        with False j have "runScan_timeout scanId now s = s"
          by (auto simp add: runScan_timeout_def split: option.splits)
        then show ?thesis using TotalTimeout by (intro same) simp
      next
        case False
        then show ?thesis using TotalTimeout by (intro same) (simp add: timeout_other)
      qed
    qed
  qed
qed

lemma lifecycle_reachable:
  assumes "scans (run evs (new_SearchAggregator cfg)) i = Some j"
  shows "(status j = Completed) = (endTime j \<noteq> None)"
    and "status j = Completed \<Longrightarrow> fromCache j \<or> progress j = 100"
  using life_lookup(1)[OF life_run[OF life_new] assms]
  by (simp_all add: scan_ok_def)

lemma lifecycle_run:
  assumes "lifecycle_inv s" and "scans s i = Some j"
  shows "\<exists>j'. scans (run evs s) i = Some j' \<and> progress j \<le> progress j' \<and>
           (status j = Completed \<longrightarrow> j' = j) \<and>
           (endTime j \<noteq> None \<longrightarrow> endTime j' = endTime j)"
  using assms
proof (induction evs arbitrary: s j)
  case Nil
  then show ?case by (simp add: run_Nil)
next
  case (Cons e evs)
  from lifecycle_step[OF Cons.prems, of e] obtain j1 where
    j1: "scans (step e s) i = Some j1" "progress j \<le> progress j1"
        "status j = Completed \<longrightarrow> j1 = j" "endTime j \<noteq> None \<longrightarrow> endTime j1 = endTime j"
    by blast
  from Cons.IH[OF life_step[OF Cons.prems(1)] j1(1)] obtain j' where
    j': "scans (run evs (step e s)) i = Some j'" "progress j1 \<le> progress j'"
        "status j1 = Completed \<longrightarrow> j' = j1" "endTime j1 \<noteq> None \<longrightarrow> endTime j' = endTime j1"
    by blast
  have "progress j \<le> progress j'" using j1(2) j'(2) by simp
  moreover have "status j = Completed \<longrightarrow> j' = j" using j1(3) j'(3) by auto
  moreover have "endTime j \<noteq> None \<longrightarrow> endTime j' = endTime j" using j1(4) j'(4) by auto
  ultimately show ?case using j'(1) by (simp add: run_Cons)
qed

text \<open>
  Claim C1 fails on the code. With a total timeout of one second, the timer fires while
  the adapter is pending: \<^verbatim>\<open>this.timeout\<close> rejects, so \<^verbatim>\<open>runScan\<close> is abandoned and the
  handler of \<^verbatim>\<open>startScan\<close> sets the status \<^verbatim>\<open>error\<close>; nothing is fused and the cache is
  not written. The adapter that returns afterwards still writes its findings, its count
  and the progress into the scan.
\<close>

theorem total_timeout_sets_error:
  "map_option (\<lambda>j. (status j, results j, errors j, progress j))
     (scans (run [StartScan ''scan-1'' 0 ''testuser'' \<lparr>opt_adapters = Some [''github'']\<rparr>,
                  TotalTimeout ''scan-1'' 1000]
               (new_SearchAggregator (AGGREGATOR_CONFIG\<lparr>totalTimeout := 1000\<rparr>))) ''scan-1'')
   = Some (Error, [], [ScanError ''Timeout''], 0) \<and>
   map_option (\<lambda>j. (status j, results j, errors j, progress j, completedSources (stats j)))
     (scans (run [StartScan ''scan-1'' 0 ''testuser'' \<lparr>opt_adapters = Some [''github'']\<rparr>,
                  TotalTimeout ''scan-1'' 1000,
                  AdapterSettled ''scan-1'' ''github'' (Returned [bare_finding ''1'' 0.9]),
                  AllSettled ''scan-1'' 2000]
               (new_SearchAggregator (AGGREGATOR_CONFIG\<lparr>totalTimeout := 1000\<rparr>))) ''scan-1'')
   = Some (Error, [bare_finding ''1'' 0.9], [ScanError ''Timeout''], 100, 1) \<and>
   cache (run [StartScan ''scan-1'' 0 ''testuser'' \<lparr>opt_adapters = Some [''github'']\<rparr>,
                  TotalTimeout ''scan-1'' 1000,
                  AdapterSettled ''scan-1'' ''github'' (Returned [bare_finding ''1'' 0.9]),
                  AllSettled ''scan-1'' 2000]
               (new_SearchAggregator (AGGREGATOR_CONFIG\<lparr>totalTimeout := 1000\<rparr>)))
     (getCacheKey ''testuser'' \<lparr>opt_adapters = Some [''github'']\<rparr>) = None"
  by (simp add: scan_eval)

text \<open>
  Claim C3 fails on the code for a scan served from the cache: \<^verbatim>\<open>startScan\<close> sets the
  status, the end time and \<^verbatim>\<open>fromCache\<close>, and leaves the progress at the 0 of the new
  scan, where \<^verbatim>\<open>runScan\<close> sets 100.
\<close>

theorem cached_scan_progress_zero:
  "map_option (\<lambda>j. (status j, fromCache j, progress j, endTime j))
     (scans (run [StartScan ''scan-1'' 0 ''testuser'' \<lparr>opt_adapters = Some [''github'']\<rparr>,
                  AdapterSettled ''scan-1'' ''github'' (Returned [bare_finding ''1'' 0.9]),
                  AllSettled ''scan-1'' 700,
                  StartScan ''scan-2'' 5000 ''testuser'' \<lparr>opt_adapters = Some [''github'']\<rparr>]
               (new_SearchAggregator AGGREGATOR_CONFIG)) ''scan-2'')
   = Some (Completed, True, 0, Some 5000)"
  by (simp add: scan_eval getCacheKey_def JSON_stringify_def json_string_def json_escape_def)

text \<open>
  Claim C10 fails on the code for the status \<^verbatim>\<open>error\<close>: the handler of \<^verbatim>\<open>startScan\<close>
  sets the status and pushes the message, and does not set the end time, which both
  paths to \<^verbatim>\<open>completed\<close> set. The end time is still missing after the remaining adapter
  has settled.
\<close>

theorem error_status_without_endTime:
  "map_option (\<lambda>j. (status j, endTime j, errors j))
     (scans (run [StartScan ''scan-1'' 0 ''testuser'' \<lparr>opt_adapters = Some [''github'', ''reddit'']\<rparr>,
                  AdapterSettled ''scan-1'' ''reddit'' (Raised ''Network error''),
                  TotalTimeout ''scan-1'' 1000]
               (new_SearchAggregator (AGGREGATOR_CONFIG\<lparr>totalTimeout := 1000\<rparr>))) ''scan-1'')
   = Some (Error, None, [AdapterError ''reddit'' ''Network error'', ScanError ''Timeout'']) \<and>
   map_option (\<lambda>j. (status j, endTime j))
     (scans (run [StartScan ''scan-1'' 0 ''testuser'' \<lparr>opt_adapters = Some [''github'', ''reddit'']\<rparr>,
                  AdapterSettled ''scan-1'' ''reddit'' (Raised ''Network error''),
                  TotalTimeout ''scan-1'' 1000,
                  AdapterSettled ''scan-1'' ''github'' TimedOut,
                  AllSettled ''scan-1'' 30000]
               (new_SearchAggregator (AGGREGATOR_CONFIG\<lparr>totalTimeout := 1000\<rparr>))) ''scan-1'')
   = Some (Error, None)"
  by (simp add: scan_eval)

end
